theory Spec2Isabelle
  imports Main "HOL-Library.Word"
begin

section \<open>Data model\<close>

text \<open>
  The repository holds two translation units, \<^verbatim>\<open>OrderBook.cpp\<close> and
  \<^verbatim>\<open>OrderBookOptimized.cpp\<close>, each defining its own class \<^verbatim>\<open>OrderBook\<close>.
  The types below are shared by both: \<^verbatim>\<open>OrderId = uint64_t\<close>, \<^verbatim>\<open>Price = uint32_t\<close>,
  \<^verbatim>\<open>Qty = uint32_t\<close>. Comparison on words is the unsigned one, subtraction wraps.
\<close>

datatype Side = BUY | SELL

datatype OrderType = LIMIT | MARKET

type_synonym OrderId = "64 word"
type_synonym Price = "32 word"
type_synonym Qty = "32 word"

text \<open>
  \<^verbatim>\<open>class Order\<close>. The member \<^verbatim>\<open>price_\<close> is a plain \<^verbatim>\<open>Price\<close> in the optimized file and
  an \<^verbatim>\<open>optional<Price>\<close> in the other one, where the only constructor that is called
  (the five-argument one of \<^verbatim>\<open>add_limit\<close>) always sets it; market orders are never
  built as objects.
\<close>

record Order =
  order_id :: OrderId
  order_type :: OrderType
  order_side :: Side
  order_price :: Price
  initialQty :: Qty
  remainingQty :: Qty

text \<open>The exceptions the code throws, and the undefined behaviour it can run into.\<close>

datatype error =
    Overfill \<comment> \<open>\<^verbatim>\<open>throw std::logic_error("overfill")\<close> in \<^verbatim>\<open>Order::fill\<close>\<close>
  | EmptyBookDeref \<comment> \<open>\<^verbatim>\<open>*m.begin()\<close> on an empty \<^verbatim>\<open>std::map\<close>\<close>
  | EmptyLevelFront \<comment> \<open>\<^verbatim>\<open>front()\<close> on an empty level\<close>
  | BadIterator \<comment> \<open>\<^verbatim>\<open>erase(it)\<close> with an iterator that is not a node of the container\<close>
  | DestroyedOrderRead \<comment> \<open>a read through a reference to an order that \<^verbatim>\<open>pop_front\<close> has destroyed\<close>
  | NoReturn \<comment> \<open>control reaches the end of a non-void function\<close>
  | NoQuantity \<comment> \<open>\<^verbatim>\<open>throw std::logic_error("cannot create order with no quantity!")\<close>\<close>

definition fill :: "Qty \<Rightarrow> Order \<Rightarrow> error + Order" where
  "fill exec ord =
     (if exec > remainingQty ord then Inl Overfill
      else Inr (ord\<lparr>remainingQty := remainingQty ord - exec\<rparr>))"

definition isFilled :: "Order \<Rightarrow> bool" where
  "isFilled ord = (remainingQty ord = 0)"

definition getFilledQty :: "Order \<Rightarrow> Qty" where
  "getFilledQty ord = initialQty ord - remainingQty ord"

record TradeInfo =
  ti_id :: OrderId
  ti_price :: Price
  ti_qty :: Qty

record Trade =
  getBuy :: TradeInfo
  getSell :: TradeInfo

definition mkTrade :: "OrderId \<Rightarrow> Price \<Rightarrow> Qty \<Rightarrow> OrderId \<Rightarrow> Price \<Rightarrow> Qty \<Rightarrow> Trade" where
  "mkTrade bi bp bq si sp sq =
     \<lparr>getBuy = \<lparr>ti_id = bi, ti_price = bp, ti_qty = bq\<rparr>,
      getSell = \<lparr>ti_id = si, ti_price = sp, ti_qty = sq\<rparr>\<rparr>"

text \<open>
  A level is the FIFO sequence of the orders at one price (\<^verbatim>\<open>std::list<Order>\<close>; the
  optimized file declares \<^verbatim>\<open>std::vector<std::shared_ptr<Order>>\<close> and uses it through
  the same operations). A \<^verbatim>\<open>std::map<Price, Level, Cmp>\<close> is the list of its nodes in
  iteration order: \<^verbatim>\<open>begin()\<close> is the head. \<^verbatim>\<open>asks_\<close> is ordered by \<^verbatim>\<open>std::less\<close>,
  \<^verbatim>\<open>bids_\<close> by \<^verbatim>\<open>std::greater\<close>.
\<close>

type_synonym Level = "Order list"
type_synonym Ledger = "(Price \<times> Level) list"

text \<open>
  \<^verbatim>\<open>struct Handle { Side side; Price price; Handler it; }\<close>. The iterator designates a
  node of a level; the model names the node by the id of the order it holds.
\<close>

record Handle =
  h_side :: Side
  h_price :: Price
  h_it :: OrderId

record OrderBook =
  asks :: Ledger
  bids :: Ledger
  orderIdToIterator :: "OrderId \<rightharpoonup> Handle"
  nextOrderId :: OrderId

text \<open>The constructor: empty containers, \<^verbatim>\<open>nextOrderId_{1}\<close>.\<close>

definition newOrderBook :: OrderBook where
  "newOrderBook = \<lparr>asks = [], bids = [], orderIdToIterator = Map.empty, nextOrderId = 1\<rparr>"

definition nextId :: "OrderBook \<Rightarrow> OrderId \<times> OrderBook" where
  "nextId b = (nextOrderId b, b\<lparr>nextOrderId := nextOrderId b + 1\<rparr>)"

subsection \<open>The operations of \<^verbatim>\<open>std::map\<close> the code uses\<close>

text \<open>
  \<^verbatim>\<open>m[k]\<close> followed by a change \<open>f\<close> of the level it refers to. A node with an empty
  level is created, at its place in the order \<open>lt\<close>, when the key is absent.
\<close>

fun modify_at :: "(Price \<Rightarrow> Price \<Rightarrow> bool) \<Rightarrow> Price \<Rightarrow> (Level \<Rightarrow> Level) \<Rightarrow> Ledger \<Rightarrow> Ledger" where
  "modify_at lt k f [] = [(k, f [])]"
| "modify_at lt k f ((p, l) # m) =
     (if k = p then (p, f l) # m
      else if lt k p then (k, f []) # (p, l) # m
      else (p, l) # modify_at lt k f m)"

text \<open>The level \<^verbatim>\<open>m[k]\<close> refers to (empty when the node has just been created).\<close>

fun level_at :: "Price \<Rightarrow> Ledger \<Rightarrow> Level" where
  "level_at k [] = []"
| "level_at k ((p, l) # m) = (if k = p then l else level_at k m)"

text \<open>\<^verbatim>\<open>m.erase(k)\<close> by key.\<close>

definition erase_key :: "Price \<Rightarrow> Ledger \<Rightarrow> Ledger" where
  "erase_key k m = filter (\<lambda>(p, l). p \<noteq> k) m"

text \<open>\<^verbatim>\<open>index.insert({id, handle})\<close>: an existing entry is kept.\<close>

definition index_insert :: "OrderId \<Rightarrow> Handle \<Rightarrow> (OrderId \<rightharpoonup> Handle) \<Rightarrow> (OrderId \<rightharpoonup> Handle)" where
  "index_insert k h m = (if m k = None then m(k \<mapsto> h) else m)"

section \<open>\<^verbatim>\<open>add_market\<close> (the same text in both files)\<close>

text \<open>
  The trade \<^verbatim>\<open>consume\<close> appends: the market order is the buy leg when the market
  order buys, the sell leg otherwise; both legs carry the price of the level and the
  executed quantity.
\<close>

definition market_trade :: "Side \<Rightarrow> OrderId \<Rightarrow> OrderId \<Rightarrow> Price \<Rightarrow> Qty \<Rightarrow> Trade" where
  "market_trade side marketId restingId price exec =
     (if side = BUY then mkTrade marketId price exec restingId price exec
      else mkTrade restingId price exec marketId price exec)"

text \<open>
  The inner \<^verbatim>\<open>for\<close> loop of the lambda \<^verbatim>\<open>consume\<close>, over one level: the trade is
  appended, the resting order filled, the unfilled quantity reduced; a filled order
  leaves the index and the level (\<^verbatim>\<open>it = level.erase(it)\<close>), an unfilled one is stepped
  over (\<^verbatim>\<open>++it\<close>). The result is the trades of the loop in order, the quantity left,
  the level and the index.
\<close>

fun consume_level ::
  "Side \<Rightarrow> OrderId \<Rightarrow> Price \<Rightarrow> Qty \<Rightarrow> Level \<Rightarrow> (OrderId \<rightharpoonup> Handle)
     \<Rightarrow> error + (Trade list \<times> Qty \<times> Level \<times> (OrderId \<rightharpoonup> Handle))" where
  "consume_level side marketId price qty [] idx = Inr ([], qty, [], idx)"
| "consume_level side marketId price qty (resting # rest) idx =
     (if qty = 0 then Inr ([], qty, resting # rest, idx)
      else
        let exec = min qty (remainingQty resting);
            restingId = order_id resting;
            t = market_trade side marketId restingId price exec
        in case fill exec resting of
             Inl e \<Rightarrow> Inl e
           | Inr resting' \<Rightarrow>
               if isFilled resting' then
                 (case consume_level side marketId price (qty - exec) rest (idx(restingId := None)) of
                    Inl e \<Rightarrow> Inl e
                  | Inr (ts, q, lvl, idx') \<Rightarrow> Inr (t # ts, q, lvl, idx'))
               else
                 (case consume_level side marketId price (qty - exec) rest idx of
                    Inl e \<Rightarrow> Inl e
                  | Inr (ts, q, lvl, idx') \<Rightarrow> Inr (t # ts, q, resting' # lvl, idx')))"

lemma consume_level_leftover:
  "consume_level side mid price qty lvl idx = Inr (ts, q, lvl', idx') \<Longrightarrow> lvl' \<noteq> [] \<Longrightarrow> q = 0"
proof (induction lvl arbitrary: qty idx ts q lvl' idx')
  case Nil
  then show ?case by simp
next
  case (Cons r rest)
  show ?case
  proof (cases "qty = 0")
    case True
    with Cons.prems show ?thesis by simp
  next
    case False
    define exec where "exec = min qty (remainingQty r)"
    have le: "exec \<le> remainingQty r" by (simp add: exec_def)
    then obtain r' where r': "fill exec r = Inr r'" "remainingQty r' = remainingQty r - exec"
      by (auto simp: fill_def not_less [symmetric])
    show ?thesis
    proof (cases "isFilled r'")
      case True
      with Cons.prems False r' obtain ts0 where
        "consume_level side mid price (qty - exec) rest (idx(order_id r := None)) = Inr (ts0, q, lvl', idx')"
        by (auto simp: Let_def exec_def split: sum.splits prod.splits)
      from Cons.IH [OF this Cons.prems(2)] show ?thesis .
    next
      case nf: False
      have "exec = qty"
      proof (rule ccontr)
        assume "exec \<noteq> qty"
        then have "exec = remainingQty r" by (auto simp: exec_def min_def)
        with r' nf show False by (simp add: isFilled_def)
      qed
      then have z: "qty - exec = 0" by simp
      from Cons.prems(1) False r' nf z have "q = 0"
        by (cases rest) (auto simp: Let_def exec_def split: sum.splits prod.splits)
      then show ?thesis .
    qed
  qed
qed

text \<open>
  The \<^verbatim>\<open>while (qty > 0 && !opp.empty())\<close> loop of \<^verbatim>\<open>consume\<close>: the best level is
  \<^verbatim>\<open>opp.begin()\<close>; after the inner loop the level is erased from the map when it is
  empty.
\<close>

function consume ::
  "Side \<Rightarrow> OrderId \<Rightarrow> Qty \<Rightarrow> Ledger \<Rightarrow> (OrderId \<rightharpoonup> Handle)
     \<Rightarrow> error + (Trade list \<times> Qty \<times> Ledger \<times> (OrderId \<rightharpoonup> Handle))" where
  "consume side marketId qty [] idx = Inr ([], qty, [], idx)"
| "consume side marketId qty ((price, level) # rest) idx =
     (if qty = 0 then Inr ([], qty, (price, level) # rest, idx)
      else
        case consume_level side marketId price qty level idx of
          Inl e \<Rightarrow> Inl e
        | Inr (ts, qty', level', idx') \<Rightarrow>
            (case consume side marketId qty'
                    (if level' = [] then rest else (price, level') # rest) idx' of
               Inl e \<Rightarrow> Inl e
             | Inr (ts', q, opp, idx'') \<Rightarrow> Inr (ts @ ts', q, opp, idx'')))"
  by pat_completeness auto
termination
proof (relation "measure (\<lambda>(side, marketId, qty, opp, idx). 2 * length opp + (if qty = 0 then 0 else 1))")
  show "wf (measure (\<lambda>(side, marketId, qty, opp, idx). 2 * length opp + (if qty = (0::Qty) then 0 else 1)))"
    by simp
next
  fix side :: Side and marketId :: OrderId and qty :: Qty and price :: Price and level :: Level
    and rest :: Ledger and idx :: "OrderId \<rightharpoonup> Handle" and x2 ts y qty' ya level' idx'
  assume "qty \<noteq> 0" and "consume_level side marketId price qty level idx = Inr x2"
    and "(ts, y) = x2" and "(qty', ya) = y" and "(level', idx') = ya"
  then have c: "consume_level side marketId price qty level idx = Inr (ts, qty', level', idx')"
    by simp
  have "level' \<noteq> [] \<Longrightarrow> qty' = 0" using consume_level_leftover [OF c] .
  with \<open>qty \<noteq> 0\<close>
  show "((side, marketId, qty', if level' = [] then rest else (price, level') # rest, idx'),
         (side, marketId, qty, (price, level) # rest, idx))
        \<in> measure (\<lambda>(side, marketId, qty, opp, idx). 2 * length opp + (if qty = 0 then 0 else 1))"
    by auto
qed

definition add_market :: "Side \<Rightarrow> Qty \<Rightarrow> OrderBook \<Rightarrow> error + (Trade list \<times> OrderBook)" where
  "add_market side qty b =
     (if qty = 0 then Inr ([], b)
      else
        let (marketId, b1) = nextId b
        in if side = BUY then
             (case consume side marketId qty (asks b1) (orderIdToIterator b1) of
                Inl e \<Rightarrow> Inl e
              | Inr (ts, q, opp, idx) \<Rightarrow> Inr (ts, b1\<lparr>asks := opp, orderIdToIterator := idx\<rparr>))
           else
             (case consume side marketId qty (bids b1) (orderIdToIterator b1) of
                Inl e \<Rightarrow> Inl e
              | Inr (ts, q, opp, idx) \<Rightarrow> Inr (ts, b1\<lparr>bids := opp, orderIdToIterator := idx\<rparr>)))"

section \<open>The crossing procedure\<close>

text \<open>All resting orders of one side, best level first, FIFO within a level.\<close>

definition flat :: "Ledger \<Rightarrow> Order list" where
  "flat m = concat (map snd m)"

text \<open>
  One iteration of the \<^verbatim>\<open>while (true)\<close> loop of \<^verbatim>\<open>matchOrders\<close> in
  \<^verbatim>\<open>OrderBookOptimized.cpp\<close>, in the three parts the code has.

  Lines 210 to 219. The loop dereferences \<^verbatim>\<open>asks_.begin()\<close> and \<^verbatim>\<open>bids_.begin()\<close> and
  calls \<^verbatim>\<open>front()\<close> on both levels with no test for emptiness; \<open>None\<close> is the
  \<^verbatim>\<open>break\<close>. \<^verbatim>\<open>bid\<close> and \<^verbatim>\<open>ask\<close> are references to the two front orders, which are
  both filled with \<^verbatim>\<open>exec\<close>. The result gives the two orders as they are after the
  fill, \<^verbatim>\<open>exec\<close>, and the book with the two orders filled in place.
\<close>

definition match_fill :: "OrderBook \<Rightarrow> error + (Order \<times> Order \<times> Qty \<times> OrderBook) option" where
  "match_fill b =
     (case asks b of
        [] \<Rightarrow> Inl EmptyBookDeref
      | (bestAsk, askLevel) # asksRest \<Rightarrow>
          (case bids b of
             [] \<Rightarrow> Inl EmptyBookDeref
           | (bestBid, bidLevel) # bidsRest \<Rightarrow>
               if bestAsk > bestBid then Inr None
               else
                 (case bidLevel of
                    [] \<Rightarrow> Inl EmptyLevelFront
                  | bid # bidTl \<Rightarrow>
                      (case askLevel of
                         [] \<Rightarrow> Inl EmptyLevelFront
                       | ask # askTl \<Rightarrow>
                           let exec = min (remainingQty bid) (remainingQty ask)
                           in case fill exec bid of
                                Inl e \<Rightarrow> Inl e
                              | Inr bid' \<Rightarrow>
                                  (case fill exec ask of
                                     Inl e \<Rightarrow> Inl e
                                   | Inr ask' \<Rightarrow>
                                       Inr (Some (bid', ask', exec,
                                                  b\<lparr>asks := (bestAsk, ask' # askTl) # asksRest,
                                                    bids := (bestBid, bid' # bidTl) # bidsRest\<rparr>)))))))"

text \<open>
  \<^verbatim>\<open>pop_front()\<close> on the level of the first node of a map, and the erase of the first
  node when its level is empty (\<^verbatim>\<open>if (asks.empty()) asks_.erase(bestAsk)\<close>). Both are
  only used on a map that has a first node.
\<close>

definition pop_front_best :: "Ledger \<Rightarrow> Ledger" where
  "pop_front_best m = (case m of [] \<Rightarrow> [] | (p, l) # rest \<Rightarrow> (p, tl l) # rest)"

definition erase_empty_best :: "Ledger \<Rightarrow> Ledger" where
  "erase_empty_best m =
     (case m of [] \<Rightarrow> [] | (p, l) # rest \<Rightarrow> if l = [] then erase_key p m else m)"

text \<open>
  Lines 221 to 235, on the book \<^verbatim>\<open>match_fill\<close> returns. \<^verbatim>\<open>pop_front\<close> destroys the order
  the reference names. When the bid is filled, line 223 reads \<^verbatim>\<open>bid.getOrderId()\<close>
  after \<^verbatim>\<open>bids.pop_front()\<close>: the read of a destroyed order. Otherwise the bid is
  alive; when the ask is filled it is popped, and the index entry that is erased is
  again that of \<^verbatim>\<open>bid.getOrderId()\<close> (line 227). Then a best level that is empty is
  erased from its map.
\<close>

definition match_erase :: "Order \<Rightarrow> Order \<Rightarrow> OrderBook \<Rightarrow> error + OrderBook" where
  "match_erase bid ask b =
     (if isFilled bid then Inl DestroyedOrderRead
      else
        let b1 = (if isFilled ask
                  then b\<lparr>asks := pop_front_best (asks b),
                         orderIdToIterator := (orderIdToIterator b)(order_id bid := None)\<rparr>
                  else b)
        in Inr (b1\<lparr>asks := erase_empty_best (asks b1), bids := erase_empty_best (bids b1)\<rparr>))"

text \<open>
  Lines 237 and 238: the record is built from
  \<^verbatim>\<open>TradeInfo{bid.getOrderId(), bid.getPrice(), exec}\<close> and
  \<^verbatim>\<open>TradeInfo{ask.getOrderId(), ask.getPrice(), exec}\<close>, each read through the
  reference. An order that was filled has been destroyed by \<^verbatim>\<open>pop_front\<close> by then, so
  the record is built only when neither order was filled, in whichever order the two
  legs are evaluated.
\<close>

definition trade_info :: "Order \<Rightarrow> Qty \<Rightarrow> error + TradeInfo" where
  "trade_info ord exec =
     (if isFilled ord then Inl DestroyedOrderRead
      else Inr \<lparr>ti_id = order_id ord, ti_price = order_price ord, ti_qty = exec\<rparr>)"

definition match_trade :: "Order \<Rightarrow> Order \<Rightarrow> Qty \<Rightarrow> error + Trade" where
  "match_trade bid ask exec =
     (case trade_info bid exec of
        Inl e \<Rightarrow> Inl e
      | Inr buy \<Rightarrow>
          (case trade_info ask exec of
             Inl e \<Rightarrow> Inl e
           | Inr sell \<Rightarrow> Inr \<lparr>getBuy = buy, getSell = sell\<rparr>))"

definition match_step :: "OrderBook \<Rightarrow> error + (Trade \<times> OrderBook) option" where
  "match_step b =
     (case match_fill b of
        Inl e \<Rightarrow> Inl e
      | Inr None \<Rightarrow> Inr None
      | Inr (Some (bid, ask, exec, b1)) \<Rightarrow>
          (case match_erase bid ask b1 of
             Inl e \<Rightarrow> Inl e
           | Inr b2 \<Rightarrow>
               (case match_trade bid ask exec of
                  Inl e \<Rightarrow> Inl e
                | Inr t \<Rightarrow> Inr (Some (t, b2)))))"

lemma flat_Cons [simp]: "flat ((p, l) # m) = l @ flat m"
  by (simp add: flat_def)

lemma flat_Nil [simp]: "flat [] = []"
  by (simp add: flat_def)

lemma length_flat_erase_key: "length (flat (erase_key k m)) \<le> length (flat m)"
  by (induction m) (auto simp: erase_key_def)

lemma fill_min_left:
  "fill (min (remainingQty x) (remainingQty y)) x = Inr x' \<Longrightarrow>
   fill (min (remainingQty x) (remainingQty y)) y = Inr y' \<Longrightarrow> isFilled x' \<or> isFilled y'"
  by (auto simp: fill_def isFilled_def min_def split: if_splits)

lemma match_fill_SomeD:
  assumes "match_fill b = Inr (Some (bid', ask', exec, b1))"
  shows "\<exists>bestAsk ask askTl asksRest bestBid bid bidTl bidsRest.
           asks b = (bestAsk, ask # askTl) # asksRest \<and>
           bids b = (bestBid, bid # bidTl) # bidsRest \<and>
           bestAsk \<le> bestBid \<and>
           exec = min (remainingQty bid) (remainingQty ask) \<and>
           bid' = bid\<lparr>remainingQty := remainingQty bid - exec\<rparr> \<and>
           ask' = ask\<lparr>remainingQty := remainingQty ask - exec\<rparr> \<and>
           b1 = b\<lparr>asks := (bestAsk, ask' # askTl) # asksRest,
                  bids := (bestBid, bid' # bidTl) # bidsRest\<rparr>"
proof -
  from assms obtain bestAsk askLevel asksRest where a: "asks b = (bestAsk, askLevel) # asksRest"
    by (cases "asks b") (auto simp: match_fill_def)
  from assms a obtain bestBid bidLevel bidsRest where bd: "bids b = (bestBid, bidLevel) # bidsRest"
    by (cases "bids b") (auto simp: match_fill_def)
  from assms a bd have nlt: "\<not> bestBid < bestAsk"
    by (auto simp: match_fill_def split: if_splits)
  then have le: "bestAsk \<le> bestBid" by simp
  from assms a bd nlt obtain bid bidTl where bl: "bidLevel = bid # bidTl"
    by (cases bidLevel) (auto simp: match_fill_def)
  from assms a bd nlt bl obtain ask askTl where al: "askLevel = ask # askTl"
    by (cases askLevel) (auto simp: match_fill_def)
  let ?e = "min (remainingQty bid) (remainingQty ask)"
  have fb: "fill ?e bid = Inr (bid\<lparr>remainingQty := remainingQty bid - ?e\<rparr>)"
    by (simp add: fill_def not_less)
  have fa: "fill ?e ask = Inr (ask\<lparr>remainingQty := remainingQty ask - ?e\<rparr>)"
    by (simp add: fill_def not_less)
  from assms have
    "exec = ?e \<and> bid' = bid\<lparr>remainingQty := remainingQty bid - ?e\<rparr> \<and>
     ask' = ask\<lparr>remainingQty := remainingQty ask - ?e\<rparr> \<and>
     b1 = b\<lparr>asks := (bestAsk, ask' # askTl) # asksRest, bids := (bestBid, bid' # bidTl) # bidsRest\<rparr>"
    unfolding match_fill_def a bd al bl
    using nlt by (simp add: fa fb Let_def) blast
  with a bd al bl le show ?thesis by blast
qed

lemma match_fill_filled:
  assumes "match_fill b = Inr (Some (bid', ask', exec, b1))"
  shows "isFilled bid' \<or> isFilled ask'"
proof -
  from match_fill_SomeD [OF assms] obtain bid ask where
    "exec = min (remainingQty bid) (remainingQty ask)"
    "bid' = bid\<lparr>remainingQty := remainingQty bid - exec\<rparr>"
    "ask' = ask\<lparr>remainingQty := remainingQty ask - exec\<rparr>"
    by blast
  then show ?thesis by (auto simp: isFilled_def min_def)
qed

text \<open>
  An iteration that trades fills one of the two orders at least, so it ends in one of
  the reads of a destroyed order and never reaches the next iteration.
\<close>

lemma match_step_no_trade: "match_step b \<noteq> Inr (Some tb)"
proof
  assume s: "match_step b = Inr (Some tb)"
  then obtain bid ask exec b1 where f: "match_fill b = Inr (Some (bid, ask, exec, b1))"
    by (auto simp: match_step_def split: sum.splits option.splits)
  from match_fill_filled [OF f] have "isFilled bid \<or> isFilled ask" .
  with s f show False
    by (auto simp: match_step_def match_erase_def match_trade_def trade_info_def
        split: sum.splits if_splits)
qed

function matchOrders :: "OrderBook \<Rightarrow> error + (Trade list \<times> OrderBook)" where
  "matchOrders b =
     (case match_step b of
        Inl e \<Rightarrow> Inl e
      | Inr None \<Rightarrow> Inr ([], b)
      | Inr (Some (t, b1)) \<Rightarrow>
          (case matchOrders b1 of
             Inl e \<Rightarrow> Inl e
           | Inr (ts, b2) \<Rightarrow> Inr (t # ts, b2)))"
  by pat_completeness auto
termination
proof (relation "measure (\<lambda>b. length (flat (asks b)) + length (flat (bids b)))")
  show "wf (measure (\<lambda>b. length (flat (asks b)) + length (flat (bids b))))"
    by simp
next
  fix b :: OrderBook and x2 x2a t b1
  assume "match_step b = Inr x2" and "x2 = Some x2a" and "(t, b1) = x2a"
  then have "match_step b = Inr (Some (t, b1))" by simp
  with match_step_no_trade [of b "(t, b1)"]
  show "(b1, b) \<in> measure (\<lambda>b. length (flat (asks b)) + length (flat (bids b)))"
    by simp
qed

declare matchOrders.simps [simp del]

text \<open>
  In \<^verbatim>\<open>OrderBook.cpp\<close> the body is empty: \<^verbatim>\<open>Trades matchOrders() {}\<close>. The book is
  left as it is and the function has no value to return. The result is the pair of
  what is returned and the book after the call.
\<close>

definition matchOrders_base :: "OrderBook \<Rightarrow> (error + Trade list) \<times> OrderBook" where
  "matchOrders_base b = (Inl NoReturn, b)"

section \<open>\<^verbatim>\<open>add_limit\<close>\<close>

text \<open>
  \<^verbatim>\<open>OrderBook.cpp\<close>, lines 91 to 105: the order is appended to the level through a
  reference (\<^verbatim>\<open>auto &orders = bids_[price]\<close>) and its handle enters the index.
\<close>

definition insert_limit :: "Side \<Rightarrow> Price \<Rightarrow> Qty \<Rightarrow> OrderBook \<Rightarrow> OrderBook" where
  "insert_limit side price qty b =
     (let (oid, b1) = nextId b;
          ord = \<lparr>order_id = oid, order_type = LIMIT, order_side = side, order_price = price,
                 initialQty = qty, remainingQty = qty\<rparr>;
          b2 = (if side = BUY
                then b1\<lparr>bids := modify_at (>) price (\<lambda>orders. orders @ [ord]) (bids b1)\<rparr>
                else b1\<lparr>asks := modify_at (<) price (\<lambda>orders. orders @ [ord]) (asks b1)\<rparr>);
          handle = \<lparr>h_side = side, h_price = price, h_it = oid\<rparr>
      in b2\<lparr>orderIdToIterator := index_insert oid handle (orderIdToIterator b2)\<rparr>)"

definition add_limit_base :: "Side \<Rightarrow> Price \<Rightarrow> Qty \<Rightarrow> OrderBook \<Rightarrow> (error + Trade list) \<times> OrderBook" where
  "add_limit_base side price qty b = matchOrders_base (insert_limit side price qty b)"

text \<open>
  \<^verbatim>\<open>OrderPool::allocate\<close>: the slot's six fields are overwritten by the setters. The
  pool itself is not part of the modelled state: the pointer it returns is stored
  nowhere but in the local copy of the level below.
\<close>

definition allocate :: "OrderId \<Rightarrow> Side \<Rightarrow> OrderType \<Rightarrow> Qty \<Rightarrow> Price \<Rightarrow> Order" where
  "allocate oid side type qty price =
     \<lparr>order_id = oid, order_type = type, order_side = side, order_price = price,
      initialQty = qty, remainingQty = qty\<rparr>"

text \<open>
  \<^verbatim>\<open>OrderBookOptimized.cpp\<close>: \<^verbatim>\<open>auto level = bids_[price]\<close> creates the node when it is
  absent and copies the level; \<^verbatim>\<open>push_back\<close> acts on the copy \<open>level\<close>, which is dropped
  at the end of the block. The handle's iterator points into that copy.
\<close>

definition add_limit :: "Side \<Rightarrow> Price \<Rightarrow> Qty \<Rightarrow> OrderBook \<Rightarrow> error + (Trade list \<times> OrderBook)" where
  "add_limit side price qty b =
     (let (oid, b1) = nextId b;
          orderPointer = allocate oid side LIMIT qty price;
          b2 = (if side = BUY
                then b1\<lparr>bids := modify_at (>) price (\<lambda>l. l) (bids b1)\<rparr>
                else b1\<lparr>asks := modify_at (<) price (\<lambda>l. l) (asks b1)\<rparr>);
          level = (if side = BUY then level_at price (bids b2) else level_at price (asks b2))
                    @ [orderPointer];
          handle = \<lparr>h_side = side, h_price = price, h_it = oid\<rparr>
      in matchOrders (b2\<lparr>orderIdToIterator := index_insert oid handle (orderIdToIterator b2)\<rparr>))"

section \<open>\<^verbatim>\<open>cancel\<close>\<close>

text \<open>\<^verbatim>\<open>level.erase(it)\<close>: the node is unlinked, the others keep their order.\<close>

fun erase_node :: "OrderId \<Rightarrow> Level \<Rightarrow> error + Level" where
  "erase_node it [] = Inl BadIterator"
| "erase_node it (x # xs) =
     (if order_id x = it then Inr xs
      else case erase_node it xs of Inl e \<Rightarrow> Inl e | Inr ys \<Rightarrow> Inr (x # ys))"

text \<open>
  \<^verbatim>\<open>OrderBookOptimized.cpp\<close>. For an id that is not in the index,
  \<^verbatim>\<open>orderIdToIterator_[id]\<close> inserts a value-initialised handle, whose iterator is no
  node of any level. The level is not tested for emptiness after the erase.
\<close>

definition cancel :: "OrderId \<Rightarrow> OrderBook \<Rightarrow> error + OrderBook" where
  "cancel oid b =
     (case orderIdToIterator b oid of
        None \<Rightarrow> Inl BadIterator
      | Some h \<Rightarrow>
          if h_side h = BUY then
            (case erase_node (h_it h) (level_at (h_price h) (bids b)) of
               Inl e \<Rightarrow> Inl e
             | Inr lvl \<Rightarrow>
                 Inr (b\<lparr>bids := modify_at (>) (h_price h) (\<lambda>_. lvl) (bids b),
                        orderIdToIterator := (orderIdToIterator b)(oid := None)\<rparr>))
          else
            (case erase_node (h_it h) (level_at (h_price h) (asks b)) of
               Inl e \<Rightarrow> Inl e
             | Inr lvl \<Rightarrow>
                 Inr (b\<lparr>asks := modify_at (<) (h_price h) (\<lambda>_. lvl) (asks b),
                        orderIdToIterator := (orderIdToIterator b)(oid := None)\<rparr>)))"

text \<open>
  In \<^verbatim>\<open>OrderBook.cpp\<close> the body is empty: \<^verbatim>\<open>bool cancel(OrderId id) {}\<close>. Again the
  result is the pair of what is returned and the book after the call.
\<close>

definition cancel_base :: "OrderId \<Rightarrow> OrderBook \<Rightarrow> (error + bool) \<times> OrderBook" where
  "cancel_base oid b = (Inl NoReturn, b)"

section \<open>Notions the statements use\<close>

text \<open>The ledger an order of side \<open>side\<close> trades against, and the one it would rest in.\<close>

definition opposing :: "Side \<Rightarrow> OrderBook \<Rightarrow> Ledger" where
  "opposing side b = (if side = BUY then asks b else bids b)"

definition own_side :: "Side \<Rightarrow> OrderBook \<Rightarrow> Ledger" where
  "own_side side b = (if side = BUY then bids b else asks b)"

text \<open>The quantity available in a ledger and the quantity a trade sequence executes.\<close>

definition total_qty :: "Ledger \<Rightarrow> nat" where
  "total_qty m = sum_list (map (\<lambda>ord. unat (remainingQty ord)) (flat m))"

definition traded_qty :: "Trade list \<Rightarrow> nat" where
  "traded_qty ts = sum_list (map (\<lambda>t. unat (ti_qty (getBuy t))) ts)"

text \<open>The resting orders of a ledger in priority order, each with the key of its level.\<close>

definition priced :: "Ledger \<Rightarrow> (Price \<times> Order) list" where
  "priced m = concat (map (\<lambda>(p, l). map (\<lambda>ord. (p, ord)) l) m)"

text \<open>The trade that fills a resting order completely against the market order.\<close>

definition full_fill :: "Side \<Rightarrow> OrderId \<Rightarrow> Price \<times> Order \<Rightarrow> Trade" where
  "full_fill side marketId po =
     market_trade side marketId (order_id (snd po)) (fst po) (remainingQty (snd po))"

text \<open>The index without the ids of the given orders.\<close>

definition unindex :: "Order list \<Rightarrow> (OrderId \<rightharpoonup> Handle) \<Rightarrow> (OrderId \<rightharpoonup> Handle)" where
  "unindex os idx = (\<lambda>k. if k \<in> order_id ` set os then None else idx k)"

text \<open>A book with asks of total quantity 60 on two levels and one bid.\<close>

definition book_asks60 :: OrderBook where
  "book_asks60 =
     \<lparr>asks = [(100, [allocate 1 SELL LIMIT 25 100, allocate 2 SELL LIMIT 15 100]),
              (101, [allocate 3 SELL LIMIT 20 101])],
      bids = [(99, [allocate 4 BUY LIMIT 10 99])],
      orderIdToIterator =
        [1 \<mapsto> \<lparr>h_side = SELL, h_price = 100, h_it = 1\<rparr>,
         2 \<mapsto> \<lparr>h_side = SELL, h_price = 100, h_it = 2\<rparr>,
         3 \<mapsto> \<lparr>h_side = SELL, h_price = 101, h_it = 3\<rparr>,
         4 \<mapsto> \<lparr>h_side = BUY, h_price = 99, h_it = 4\<rparr>],
      nextOrderId = 5\<rparr>"

text \<open>
  Three books used as concrete inputs. \<open>book_quiet\<close>: one ask at 200, one bid at 50.
  \<open>book_before\<close>: asks at 99 and 200, one bid at 50. \<open>book_crossed\<close>: \<open>book_before\<close>
  after order 4, a buy of 10 at 101, has been appended to the bids as lines 91 to 105
  of \<^verbatim>\<open>OrderBook.cpp\<close> append it.
\<close>

definition book_quiet :: OrderBook where
  "book_quiet =
     \<lparr>asks = [(200, [allocate 1 SELL LIMIT 5 200])],
      bids = [(50, [allocate 2 BUY LIMIT 5 50])],
      orderIdToIterator =
        [1 \<mapsto> \<lparr>h_side = SELL, h_price = 200, h_it = 1\<rparr>,
         2 \<mapsto> \<lparr>h_side = BUY, h_price = 50, h_it = 2\<rparr>],
      nextOrderId = 3\<rparr>"

definition book_before :: OrderBook where
  "book_before =
     \<lparr>asks = [(99, [allocate 1 SELL LIMIT 5 99]), (200, [allocate 2 SELL LIMIT 5 200])],
      bids = [(50, [allocate 3 BUY LIMIT 5 50])],
      orderIdToIterator =
        [1 \<mapsto> \<lparr>h_side = SELL, h_price = 99, h_it = 1\<rparr>,
         2 \<mapsto> \<lparr>h_side = SELL, h_price = 200, h_it = 2\<rparr>,
         3 \<mapsto> \<lparr>h_side = BUY, h_price = 50, h_it = 3\<rparr>],
      nextOrderId = 4\<rparr>"

definition book_crossed :: OrderBook where
  "book_crossed = insert_limit BUY 101 10 book_before"

text \<open>A book with two asks at 100, of 10 and of 5, and no bid.\<close>

definition book_two_asks :: OrderBook where
  "book_two_asks =
     \<lparr>asks = [(100, [allocate 1 SELL LIMIT 10 100, allocate 2 SELL LIMIT 5 100])],
      bids = [],
      orderIdToIterator =
        [1 \<mapsto> \<lparr>h_side = SELL, h_price = 100, h_it = 1\<rparr>,
         2 \<mapsto> \<lparr>h_side = SELL, h_price = 100, h_it = 2\<rparr>],
      nextOrderId = 3\<rparr>"

text \<open>
  The first iteration of the loop of \<^verbatim>\<open>matchOrders\<close> on \<open>book_crossed\<close>: \<open>book_filled\<close>
  is the book after the two fills of lines 218 and 219, \<open>book_matched\<close> the book after
  line 235.
\<close>

definition book_filled :: OrderBook where
  "book_filled =
     \<lparr>asks = [(99, [(allocate 1 SELL LIMIT 5 99)\<lparr>remainingQty := 0\<rparr>]),
              (200, [allocate 2 SELL LIMIT 5 200])],
      bids = [(101, [(allocate 4 BUY LIMIT 10 101)\<lparr>remainingQty := 5\<rparr>]),
              (50, [allocate 3 BUY LIMIT 5 50])],
      orderIdToIterator =
        [1 \<mapsto> \<lparr>h_side = SELL, h_price = 99, h_it = 1\<rparr>,
         2 \<mapsto> \<lparr>h_side = SELL, h_price = 200, h_it = 2\<rparr>,
         3 \<mapsto> \<lparr>h_side = BUY, h_price = 50, h_it = 3\<rparr>,
         4 \<mapsto> \<lparr>h_side = BUY, h_price = 101, h_it = 4\<rparr>],
      nextOrderId = 5\<rparr>"

definition book_matched :: OrderBook where
  "book_matched =
     \<lparr>asks = [(200, [allocate 2 SELL LIMIT 5 200])],
      bids = [(101, [(allocate 4 BUY LIMIT 10 101)\<lparr>remainingQty := 5\<rparr>]),
              (50, [allocate 3 BUY LIMIT 5 50])],
      orderIdToIterator =
        [1 \<mapsto> \<lparr>h_side = SELL, h_price = 99, h_it = 1\<rparr>,
         2 \<mapsto> \<lparr>h_side = SELL, h_price = 200, h_it = 2\<rparr>,
         3 \<mapsto> \<lparr>h_side = BUY, h_price = 50, h_it = 3\<rparr>],
      nextOrderId = 5\<rparr>"

text \<open>
  The five-argument constructor of \<^verbatim>\<open>Order\<close> in \<^verbatim>\<open>OrderBookOptimized.cpp\<close>: its body is
  the unguarded statement \<^verbatim>\<open>throw std::logic_error("cannot create order with no quantity!")\<close>.
  No function of the file calls it; \<^verbatim>\<open>add_limit\<close> builds its order through the pool.
\<close>

definition newOrder :: "Side \<Rightarrow> OrderId \<Rightarrow> OrderType \<Rightarrow> Price \<Rightarrow> Qty \<Rightarrow> error + Order" where
  "newOrder side oid type price qty = Inl NoQuantity"

text \<open>
  The book is not crossed: when both maps have a node, the key of \<^verbatim>\<open>bids_.begin()\<close> is
  below the key of \<^verbatim>\<open>asks_.begin()\<close>.
\<close>

definition no_cross :: "OrderBook \<Rightarrow> bool" where
  "no_cross b = (bids b \<noteq> [] \<and> asks b \<noteq> [] \<longrightarrow> fst (hd (bids b)) < fst (hd (asks b)))"

text \<open>
  The book is crossed: both maps have a node and the key of \<^verbatim>\<open>bids_.begin()\<close> is not
  below the key of \<^verbatim>\<open>asks_.begin()\<close>.
\<close>

definition crossed :: "OrderBook \<Rightarrow> bool" where
  "crossed b = (bids b \<noteq> [] \<and> asks b \<noteq> [] \<and> fst (hd (asks b)) \<le> fst (hd (bids b)))"

text \<open>
  What \<^verbatim>\<open>std::map\<close> guarantees of its nodes: the keys of \<^verbatim>\<open>asks_\<close> ascend strictly,
  those of \<^verbatim>\<open>bids_\<close> descend strictly.
\<close>

definition keys_sorted :: "OrderBook \<Rightarrow> bool" where
  "keys_sorted b = (sorted_wrt (<) (map fst (asks b)) \<and> sorted_wrt (>) (map fst (bids b)))"

text \<open>
  A trade of the market order against a resting order for the quantity \<open>e\<close>, and the
  resting order after \<open>e\<close> has been taken from it.
\<close>

definition part_fill :: "Side \<Rightarrow> OrderId \<Rightarrow> Price \<times> Order \<Rightarrow> Qty \<Rightarrow> Trade" where
  "part_fill side marketId po e = market_trade side marketId (order_id (snd po)) (fst po) e"

definition reduced :: "Order \<Rightarrow> Qty \<Rightarrow> Order" where
  "reduced ord e = ord\<lparr>remainingQty := remainingQty ord - e\<rparr>"

text \<open>
  The leg of a trade of \<^verbatim>\<open>add_market\<close> that belongs to the resting order, and the
  condition that every order of a ledger is queued at the level of its own price.
\<close>

definition resting_leg :: "Side \<Rightarrow> Trade \<Rightarrow> TradeInfo" where
  "resting_leg side t = (if side = BUY then getSell t else getBuy t)"

definition level_prices_ok :: "Ledger \<Rightarrow> bool" where
  "level_prices_ok m = list_all (\<lambda>po. order_price (snd po) = fst po) (priced m)"

text \<open>
  Quantities by order id: what the orders with id \<open>i\<close> have left in a ledger and what
  they had at first, and the quantity of the legs of a trade sequence that carry \<open>i\<close>.
\<close>

definition rem_of :: "OrderId \<Rightarrow> Ledger \<Rightarrow> nat" where
  "rem_of i m = sum_list (map (\<lambda>ord. if order_id ord = i then unat (remainingQty ord) else 0) (flat m))"

definition init_of :: "OrderId \<Rightarrow> Ledger \<Rightarrow> nat" where
  "init_of i m = sum_list (map (\<lambda>ord. if order_id ord = i then unat (initialQty ord) else 0) (flat m))"

definition bought :: "OrderId \<Rightarrow> Trade list \<Rightarrow> nat" where
  "bought i ts = sum_list (map (\<lambda>t. if ti_id (getBuy t) = i then unat (ti_qty (getBuy t)) else 0) ts)"

definition sold :: "OrderId \<Rightarrow> Trade list \<Rightarrow> nat" where
  "sold i ts = sum_list (map (\<lambda>t. if ti_id (getSell t) = i then unat (ti_qty (getSell t)) else 0) ts)"

text \<open>No resting order has more left than it had at first.\<close>

definition qty_ok :: "OrderBook \<Rightarrow> bool" where
  "qty_ok b = list_all (\<lambda>ord. remainingQty ord \<le> initialQty ord) (flat (asks b) @ flat (bids b))"

text \<open>
  In the trades of a market order of side \<open>side\<close>, the quantity on the legs of the
  resting orders with id \<open>i\<close>, and the quantity on the market order's legs with id \<open>i\<close>.
\<close>

definition resting_qty :: "Side \<Rightarrow> OrderId \<Rightarrow> Trade list \<Rightarrow> nat" where
  "resting_qty side i ts = (if side = BUY then sold i ts else bought i ts)"

definition market_qty :: "Side \<Rightarrow> OrderId \<Rightarrow> Trade list \<Rightarrow> nat" where
  "market_qty side i ts = (if side = BUY then bought i ts else sold i ts)"

section \<open>Properties of \<^verbatim>\<open>add_market\<close>\<close>

subsection \<open>No fill of \<^verbatim>\<open>add_market\<close> is an overfill\<close>

lemma fill_min_right:
  "fill (min q (remainingQty r)) r = Inr (r\<lparr>remainingQty := remainingQty r - min q (remainingQty r)\<rparr>)"
  by (simp add: fill_def not_less)

lemma consume_level_total:
  "\<exists>ts q lvl' idx'. consume_level side mid price qty lvl idx = Inr (ts, q, lvl', idx')"
proof (induction lvl arbitrary: qty idx)
  case Nil
  show ?case by simp
next
  case (Cons r rest)
  show ?case
  proof (cases "qty = 0")
    case True
    then show ?thesis by simp
  next
    case False
    let ?e = "min qty (remainingQty r)"
    obtain ts1 q1 l1 i1 where c1:
      "consume_level side mid price (qty - ?e) rest (idx(order_id r := None)) = Inr (ts1, q1, l1, i1)"
      using Cons by blast
    obtain ts2 q2 l2 i2 where c2:
      "consume_level side mid price (qty - ?e) rest idx = Inr (ts2, q2, l2, i2)"
      using Cons by blast
    from False show ?thesis
      by (simp add: fill_min_right Let_def c1 c2)
  qed
qed

lemma consume_total:
  "\<exists>ts q opp' idx'. consume side mid qty opp idx = Inr (ts, q, opp', idx')"
proof (induction side mid qty opp idx rule: consume.induct)
  case (1 side marketId qty idx)
  show ?case by simp
next
  case (2 side marketId qty price level rest idx)
  show ?case
  proof (cases "qty = 0")
    case True
    then show ?thesis by simp
  next
    case False
    obtain ts q' lvl' idx' where
      c: "consume_level side marketId price qty level idx = Inr (ts, q', lvl', idx')"
      using consume_level_total by blast
    from 2 [OF False c refl refl refl] obtain ts2 q2 opp2 idx2 where
      "consume side marketId q' (if lvl' = [] then rest else (price, lvl') # rest) idx'
         = Inr (ts2, q2, opp2, idx2)"
      by blast
    with False c show ?thesis by simp
  qed
qed

text \<open>
  Claim C10. The quantity \<^verbatim>\<open>add_market\<close> executes against a resting order is the
  minimum of its own unfilled quantity and the order's remaining quantity, a quantity
  on which \<^verbatim>\<open>Order::fill\<close> does not throw. So every call of \<^verbatim>\<open>add_market\<close>, on any
  book, side and quantity, returns its trades: it never ends in the overfill error (nor
  in any other).
\<close>

theorem add_market_never_overfills:
  "fill (min qty (remainingQty resting)) resting \<noteq> Inl Overfill \<and>
   (\<exists>ts b'. add_market side qty b = Inr (ts, b')) \<and>
   add_market side qty b \<noteq> Inl Overfill"
proof -
  obtain ts q opp idx where
    a: "consume side (nextOrderId b) qty (asks b) (orderIdToIterator b) = Inr (ts, q, opp, idx)"
    using consume_total by blast
  obtain ts' q' opp' idx' where
    bd: "consume side (nextOrderId b) qty (bids b) (orderIdToIterator b) = Inr (ts', q', opp', idx')"
    using consume_total by blast
  have "\<exists>ts b'. add_market side qty b = Inr (ts, b')"
    using a bd by (cases side) (simp_all add: add_market_def nextId_def)
  then show ?thesis by (auto simp: fill_min_right)
qed

subsection \<open>A market order larger than the opposing liquidity\<close>

lemma priced_Cons [simp]: "priced ((p, l) # m) = map (\<lambda>ord. (p, ord)) l @ priced m"
  by (simp add: priced_def)

lemma priced_Nil [simp]: "priced [] = []"
  by (simp add: priced_def)

lemma unindex_Nil [simp]: "unindex [] idx = idx"
  by (simp add: unindex_def)

lemma unindex_Cons: "unindex (r # rest) idx = unindex rest (idx(order_id r := None))"
  by (auto simp: unindex_def)

lemma unindex_append: "unindex (xs @ ys) idx = unindex ys (unindex xs idx)"
  by (rule ext) (auto simp: unindex_def)

lemma consume_level_exhaust:
  "sum_list (map (\<lambda>ord. unat (remainingQty ord)) lvl) < unat qty \<Longrightarrow>
   \<exists>q. consume_level side mid price qty lvl idx
         = Inr (map (\<lambda>ord. full_fill side mid (price, ord)) lvl, q, [], unindex lvl idx)
       \<and> unat q = unat qty - sum_list (map (\<lambda>ord. unat (remainingQty ord)) lvl)"
proof (induction lvl arbitrary: qty idx)
  case Nil
  then show ?case by simp
next
  case (Cons r rest)
  let ?s = "sum_list (map (\<lambda>ord. unat (remainingQty ord)) rest)"
  from Cons.prems have lt: "unat (remainingQty r) + ?s < unat qty" by simp
  then have nz: "qty \<noteq> 0" by (auto simp: unat_eq_0)
  from lt have le: "remainingQty r \<le> qty" by (simp add: word_le_nat_alt)
  then have m: "min qty (remainingQty r) = remainingQty r" by (simp add: min_def)
  from le have u: "unat (qty - remainingQty r) = unat qty - unat (remainingQty r)"
    by (rule unat_sub)
  with lt have "?s < unat (qty - remainingQty r)" by simp
  from Cons.IH [OF this, of "idx(order_id r := None)"] obtain q where
    c: "consume_level side mid price (qty - remainingQty r) rest (idx(order_id r := None))
          = Inr (map (\<lambda>ord. full_fill side mid (price, ord)) rest, q, [], unindex rest (idx(order_id r := None)))"
    and q: "unat q = unat (qty - remainingQty r) - ?s"
    by blast
  have "consume_level side mid price qty (r # rest) idx
          = Inr (map (\<lambda>ord. full_fill side mid (price, ord)) (r # rest), q, [], unindex (r # rest) idx)"
    using nz by (simp add: m fill_def isFilled_def c full_fill_def unindex_Cons Let_def)
  moreover have "unat q = unat qty - sum_list (map (\<lambda>ord. unat (remainingQty ord)) (r # rest))"
    using q u by simp
  ultimately show ?case by blast
qed

lemma consume_exhaust:
  "total_qty opp < unat qty \<Longrightarrow>
   \<exists>q. consume side mid qty opp idx
         = Inr (map (full_fill side mid) (priced opp), q, [], unindex (flat opp) idx)
       \<and> unat q = unat qty - total_qty opp"
proof (induction opp arbitrary: qty idx)
  case Nil
  then show ?case by (simp add: total_qty_def)
next
  case (Cons pl rest)
  obtain price lvl where pl: "pl = (price, lvl)" by (cases pl)
  let ?s = "sum_list (map (\<lambda>ord. unat (remainingQty ord)) lvl)"
  from Cons.prems have lt: "?s + total_qty rest < unat qty"
    by (simp add: pl total_qty_def)
  then have nz: "qty \<noteq> 0" by (auto simp: unat_eq_0)
  from lt have "?s < unat qty" by simp
  from consume_level_exhaust [OF this, of side mid price idx] obtain q1 where
    c1: "consume_level side mid price qty lvl idx
           = Inr (map (\<lambda>ord. full_fill side mid (price, ord)) lvl, q1, [], unindex lvl idx)"
    and q1: "unat q1 = unat qty - ?s"
    by blast
  from lt q1 have "total_qty rest < unat q1" by simp
  from Cons.IH [OF this, of "unindex lvl idx"] obtain q where
    c2: "consume side mid q1 rest (unindex lvl idx)
           = Inr (map (full_fill side mid) (priced rest), q, [], unindex (flat rest) (unindex lvl idx))"
    and q: "unat q = unat q1 - total_qty rest"
    by blast
  have "consume side mid qty (pl # rest) idx
          = Inr (map (full_fill side mid) (priced (pl # rest)), q, [], unindex (flat (pl # rest)) idx)"
    using nz by (simp add: pl c1 c2 unindex_append comp_def)
  moreover have "unat q = unat qty - total_qty (pl # rest)"
    using q q1 by (simp add: pl total_qty_def)
  ultimately show ?case by blast
qed

lemma map_snd_priced: "map snd (priced m) = flat m"
  by (induction m) (auto simp: comp_def)

lemma full_fill_qty [simp]:
  "ti_qty (getBuy (full_fill side mid po)) = remainingQty (snd po)"
  "ti_qty (getSell (full_fill side mid po)) = remainingQty (snd po)"
  by (simp_all add: full_fill_def market_trade_def mkTrade_def)

lemma traded_qty_full_fill:
  "traded_qty (map (full_fill side mid) (priced m)) = total_qty m"
proof -
  have "traded_qty (map (full_fill side mid) (priced m))
        = sum_list (map (\<lambda>ord. unat (remainingQty ord)) (map snd (priced m)))"
    by (simp add: traded_qty_def comp_def)
  then show ?thesis by (simp add: map_snd_priced total_qty_def)
qed

text \<open>
  Claim C7. When the quantity of a market order exceeds the total quantity resting on
  the opposing side, \<^verbatim>\<open>add_market\<close> returns without error; its trades fill every
  opposing order completely, best level first and in queue order within a level, at the
  price of the order's level, so their quantities sum to the available quantity; the
  opposing side is left empty; the market order's own side is untouched and the index
  only loses the ids of the filled orders: the market order enters neither the ledger
  nor the index, and its unfilled remainder is dropped.
\<close>

theorem market_exhausts_liquidity:
  assumes "total_qty (opposing side b) < unat qty"
  shows "\<exists>b'. add_market side qty b
                 = Inr (map (full_fill side (nextOrderId b)) (priced (opposing side b)), b')
          \<and> traded_qty (map (full_fill side (nextOrderId b)) (priced (opposing side b)))
              = total_qty (opposing side b)
          \<and> opposing side b' = []
          \<and> own_side side b' = own_side side b
          \<and> orderIdToIterator b' = unindex (flat (opposing side b)) (orderIdToIterator b)"
proof -
  from assms have nz: "qty \<noteq> 0" by (auto simp: unat_eq_0)
  from consume_exhaust [OF assms, of side "nextOrderId b" "orderIdToIterator b"] obtain q where
    c: "consume side (nextOrderId b) qty (opposing side b) (orderIdToIterator b)
          = Inr (map (full_fill side (nextOrderId b)) (priced (opposing side b)), q, [],
                 unindex (flat (opposing side b)) (orderIdToIterator b))"
    by blast
  show ?thesis
    using c nz
    by (cases side) (simp_all add: add_market_def nextId_def opposing_def own_side_def traded_qty_full_fill)
qed

theorem market_exhausts_liquidity_witness:
  "total_qty (opposing BUY book_asks60) = 60 \<and>
   (\<exists>b'. add_market BUY 100 book_asks60
            = Inr ([mkTrade 5 100 25 1 100 25, mkTrade 5 100 15 2 100 15, mkTrade 5 101 20 3 101 20], b')
        \<and> traded_qty [mkTrade 5 100 25 1 100 25, mkTrade 5 100 15 2 100 15, mkTrade 5 101 20 3 101 20] = 60
        \<and> asks b' = [] \<and> bids b' = bids book_asks60
        \<and> orderIdToIterator b' 1 = None \<and> orderIdToIterator b' 2 = None
        \<and> orderIdToIterator b' 3 = None \<and> orderIdToIterator b' 5 = None
        \<and> orderIdToIterator b' 4 = Some \<lparr>h_side = BUY, h_price = 99, h_it = 4\<rparr>)"
proof -
  let ?ts = "[mkTrade 5 100 25 1 100 25, mkTrade 5 100 15 2 100 15, mkTrade 5 101 20 3 101 20]"
  have t: "total_qty (opposing BUY book_asks60) = 60"
    by (simp add: total_qty_def opposing_def book_asks60_def allocate_def)
  then have "total_qty (opposing BUY book_asks60) < unat (100 :: Qty)" by simp
  from market_exhausts_liquidity [OF this] obtain b' where
    r: "add_market BUY 100 book_asks60
          = Inr (map (full_fill BUY (nextOrderId book_asks60)) (priced (opposing BUY book_asks60)), b')"
    and s: "traded_qty (map (full_fill BUY (nextOrderId book_asks60)) (priced (opposing BUY book_asks60)))
          = total_qty (opposing BUY book_asks60)"
    and e: "opposing BUY b' = []"
    and o: "own_side BUY b' = own_side BUY book_asks60"
    and i: "orderIdToIterator b' = unindex (flat (opposing BUY book_asks60)) (orderIdToIterator book_asks60)"
    by blast
  have ts: "map (full_fill BUY (nextOrderId book_asks60)) (priced (opposing BUY book_asks60)) = ?ts"
    by (simp add: opposing_def book_asks60_def allocate_def full_fill_def market_trade_def)
  have "add_market BUY 100 book_asks60 = Inr (?ts, b')"
    using r ts by simp
  moreover have "traded_qty ?ts = 60"
    using s t ts by simp
  moreover have "asks b' = []" "bids b' = bids book_asks60"
    using e o by (simp_all add: opposing_def own_side_def)
  moreover have "orderIdToIterator b' 1 = None" "orderIdToIterator b' 2 = None"
      "orderIdToIterator b' 3 = None" "orderIdToIterator b' 5 = None"
      "orderIdToIterator b' 4 = Some \<lparr>h_side = BUY, h_price = 99, h_it = 4\<rparr>"
    by (simp_all add: i unindex_def opposing_def book_asks60_def allocate_def)
  ultimately show ?thesis using t by blast
qed

section \<open>The code at concrete inputs\<close>

lemmas eval_defs = matchOrders.simps match_step_def match_fill_def match_erase_def match_trade_def
  trade_info_def pop_front_best_def erase_empty_best_def fill_def isFilled_def erase_key_def
  allocate_def Let_def nextId_def index_insert_def insert_limit_def

lemma book_crossed_eq:
  "book_crossed =
     \<lparr>asks = [(99, [allocate 1 SELL LIMIT 5 99]), (200, [allocate 2 SELL LIMIT 5 200])],
      bids = [(101, [allocate 4 BUY LIMIT 10 101]), (50, [allocate 3 BUY LIMIT 5 50])],
      orderIdToIterator =
        [1 \<mapsto> \<lparr>h_side = SELL, h_price = 99, h_it = 1\<rparr>,
         2 \<mapsto> \<lparr>h_side = SELL, h_price = 200, h_it = 2\<rparr>,
         3 \<mapsto> \<lparr>h_side = BUY, h_price = 50, h_it = 3\<rparr>,
         4 \<mapsto> \<lparr>h_side = BUY, h_price = 101, h_it = 4\<rparr>],
      nextOrderId = 5\<rparr>"
  by (simp add: book_crossed_def book_before_def eval_defs)

lemma book_before_reached:
  "insert_limit BUY 50 5 (insert_limit SELL 200 5 (insert_limit SELL 99 5 newOrderBook)) = book_before"
  by (simp add: book_before_def newOrderBook_def eval_defs)

lemma match_fill_book_crossed:
  "match_fill book_crossed
     = Inr (Some ((allocate 4 BUY LIMIT 10 101)\<lparr>remainingQty := 5\<rparr>,
                  (allocate 1 SELL LIMIT 5 99)\<lparr>remainingQty := 0\<rparr>, 5, book_filled))"
  by (simp add: book_crossed_eq book_filled_def match_fill_def fill_def allocate_def Let_def)

lemma match_erase_book_filled:
  "match_erase ((allocate 4 BUY LIMIT 10 101)\<lparr>remainingQty := 5\<rparr>)
     ((allocate 1 SELL LIMIT 5 99)\<lparr>remainingQty := 0\<rparr>) book_filled = Inr book_matched"
  by (simp add: book_filled_def book_matched_def match_erase_def pop_front_best_def
      erase_empty_best_def isFilled_def erase_key_def allocate_def Let_def)

lemma matchOrders_book_crossed: "matchOrders book_crossed = Inl DestroyedOrderRead"
  by (simp add: matchOrders.simps match_step_def match_fill_book_crossed match_erase_book_filled
      match_trade_def trade_info_def isFilled_def)

text \<open>
  Claim C8, at the failing input. \<^verbatim>\<open>add_limit\<close> has no test of \<^verbatim>\<open>qty\<close>: with quantity 0
  on \<open>book_quiet\<close> the optimized file returns normally with no trade, a new empty bid
  level at 100 and the id 3 in the index; lines 91 to 105 of \<^verbatim>\<open>OrderBook.cpp\<close> rest an
  order of remaining quantity 0 and index it. The only statement of the code about
  orders of no quantity is the constructor that throws for every quantity and is never
  called. \<^verbatim>\<open>add_market\<close> with quantity 0 returns no trade and the book as it was.
\<close>

theorem zero_quantity_limit_is_accepted:
  "add_limit BUY 100 0 book_quiet
     = Inr ([], book_quiet\<lparr>bids := [(100, []), (50, [allocate 2 BUY LIMIT 5 50])],
                 orderIdToIterator :=
                   (orderIdToIterator book_quiet)(3 \<mapsto> \<lparr>h_side = BUY, h_price = 100, h_it = 3\<rparr>),
                 nextOrderId := 4\<rparr>) \<and>
   insert_limit BUY 100 0 book_quiet
     = book_quiet\<lparr>bids := [(100, [allocate 3 BUY LIMIT 0 100]), (50, [allocate 2 BUY LIMIT 5 50])],
          orderIdToIterator :=
            (orderIdToIterator book_quiet)(3 \<mapsto> \<lparr>h_side = BUY, h_price = 100, h_it = 3\<rparr>),
          nextOrderId := 4\<rparr> \<and>
   newOrder side oid type price qty = Inl NoQuantity \<and>
   add_market side 0 b = Inr ([], b)"
  by (simp add: book_quiet_def add_limit_def add_market_def newOrder_def eval_defs)

text \<open>
  Claim C2, at failing inputs. In \<^verbatim>\<open>OrderBookOptimized.cpp\<close> a limit order sent to
  the empty book ends in the dereference of \<^verbatim>\<open>asks_.begin()\<close> of an empty map; a buy
  of 5 at 100 sent to \<open>book_quiet\<close> returns with an empty level at 100 and no order in
  it, the order having been appended to a copy of the level; a sell of 5 at 50, which
  is marketable against the bid at 50, ends in \<^verbatim>\<open>front()\<close> of that empty level. In
  \<^verbatim>\<open>OrderBook.cpp\<close> the order is appended, but \<^verbatim>\<open>matchOrders\<close> has no body and
  \<^verbatim>\<open>add_limit\<close> returns no value. Nor does the loop of \<^verbatim>\<open>matchOrders\<close> return
  the trades when it is run after that insertion: with no ask in the book it
  dereferences \<^verbatim>\<open>asks_.begin()\<close> of the empty map, and when a buy of 20 at 100 meets
  the two asks of \<open>book_two_asks\<close> it fills and pops the first ask and then reads it
  for the trade record.
\<close>

theorem limit_order_does_not_rest:
  "add_limit BUY 100 5 newOrderBook = Inl EmptyBookDeref \<and>
   add_limit BUY 100 5 book_quiet
     = Inr ([], book_quiet\<lparr>bids := [(100, []), (50, [allocate 2 BUY LIMIT 5 50])],
                 orderIdToIterator :=
                   (orderIdToIterator book_quiet)(3 \<mapsto> \<lparr>h_side = BUY, h_price = 100, h_it = 3\<rparr>),
                 nextOrderId := 4\<rparr>) \<and>
   add_limit SELL 50 5 book_quiet = Inl EmptyLevelFront \<and>
   add_limit_base side price qty b = (Inl NoReturn, insert_limit side price qty b) \<and>
   matchOrders (insert_limit BUY 100 5 newOrderBook) = Inl EmptyBookDeref \<and>
   matchOrders (insert_limit BUY 100 20 book_two_asks) = Inl DestroyedOrderRead"
  by (simp add: book_quiet_def book_two_asks_def newOrderBook_def add_limit_def add_limit_base_def
      matchOrders_base_def eval_defs)

text \<open>
  Claim C9, at the failing input. On \<open>book_crossed\<close> the bid 4 (10 at 101) is matched
  with the ask 1 (5 at 99). The ask is filled and leaves the ledger, but the index
  entry that is erased is the bid's (\<^verbatim>\<open>orderIdToIterator_.erase(bid.getOrderId())\<close> in
  the branch of the filled ask): after line 235 the id 1 is in the index with no order
  in the ledger, and the order 4 rests with 5 remaining and is not in the index. The
  call does not repair this: its next statement reads the popped ask.
\<close>

theorem match_erases_wrong_id:
  "match_fill book_crossed
     = Inr (Some ((allocate 4 BUY LIMIT 10 101)\<lparr>remainingQty := 5\<rparr>,
                  (allocate 1 SELL LIMIT 5 99)\<lparr>remainingQty := 0\<rparr>, 5, book_filled)) \<and>
   match_erase ((allocate 4 BUY LIMIT 10 101)\<lparr>remainingQty := 5\<rparr>)
     ((allocate 1 SELL LIMIT 5 99)\<lparr>remainingQty := 0\<rparr>) book_filled = Inr book_matched \<and>
   orderIdToIterator book_matched 1 = Some \<lparr>h_side = SELL, h_price = 99, h_it = 1\<rparr> \<and>
   1 \<notin> order_id ` set (flat (asks book_matched) @ flat (bids book_matched)) \<and>
   orderIdToIterator book_matched 4 = None \<and>
   (allocate 4 BUY LIMIT 10 101)\<lparr>remainingQty := 5\<rparr> \<in> set (flat (bids book_matched)) \<and>
   matchOrders book_crossed = Inl DestroyedOrderRead"
  by (simp add: match_fill_book_crossed match_erase_book_filled matchOrders_book_crossed)
    (simp add: book_matched_def allocate_def)

text \<open>
  Claim C5, at failing inputs. Cancelling order 2, the only bid at 50 of \<open>book_quiet\<close>,
  removes the order and its index entry and leaves the level 50 in the map, empty.
  Cancelling the unknown id 7 reports no error value: the code erases through an
  iterator that is no node of the level. In \<^verbatim>\<open>OrderBook.cpp\<close> \<^verbatim>\<open>cancel\<close> has no body.
\<close>

theorem cancel_keeps_empty_level:
  "cancel 2 book_quiet
     = Inr (book_quiet\<lparr>bids := [(50, [])],
                         orderIdToIterator := (orderIdToIterator book_quiet)(2 := None)\<rparr>) \<and>
   cancel 7 book_quiet = Inl BadIterator \<and>
   cancel_base oid b = (Inl NoReturn, b)"
  by (simp add: book_quiet_def cancel_def cancel_base_def eval_defs)

section \<open>Crossed books\<close>

subsection \<open>The map operations keep the keys ordered\<close>

lemma map_fst_erase_key: "map fst (erase_key k m) = filter (\<lambda>p. p \<noteq> k) (map fst m)"
  by (induction m) (auto simp: erase_key_def)

lemma sorted_wrt_erase_key:
  "sorted_wrt R (map fst m) \<Longrightarrow> sorted_wrt R (map fst (erase_key k m))"
  by (simp add: map_fst_erase_key sorted_wrt_filter)

lemma set_modify_at: "set (map fst (modify_at lt k f m)) = insert k (set (map fst m))"
  by (induction lt k f m rule: modify_at.induct) auto

lemma in_modify_atD:
  "(a, l) \<in> set (modify_at lt k f m) \<Longrightarrow> a = k \<or> a \<in> fst ` set m"
  using set_modify_at [of lt k f m] by force

lemma sorted_modify_at_less:
  "sorted_wrt (<) (map fst m) \<Longrightarrow> sorted_wrt (<) (map fst (modify_at (<) k f m))"
proof (induction m)
  case Nil
  show ?case by simp
next
  case (Cons pl m)
  obtain p l where pl: "pl = (p, l)" by (cases pl)
  from Cons show ?case
    by (auto simp: pl dest!: in_modify_atD)
qed

lemma sorted_modify_at_greater:
  "sorted_wrt (>) (map fst m) \<Longrightarrow> sorted_wrt (>) (map fst (modify_at (>) k f m))"
proof (induction m)
  case Nil
  show ?case by simp
next
  case (Cons pl m)
  obtain p l where pl: "pl = (p, l)" by (cases pl)
  from Cons show ?case
    by (auto simp: pl dest!: in_modify_atD)
qed

subsection \<open>The crossing procedure\<close>

lemma crossed_iff: "crossed b \<longleftrightarrow> \<not> no_cross b"
  by (auto simp: crossed_def no_cross_def)

lemma match_fill_break:
  "match_fill b = Inr None \<Longrightarrow> no_cross b"
  by (auto simp: match_fill_def no_cross_def Let_def split: list.splits sum.splits if_splits)

lemma match_step_None: "match_step b = Inr None \<longleftrightarrow> match_fill b = Inr None"
  by (auto simp: match_step_def split: sum.splits option.splits)

text \<open>The loop returns only when its first iteration is the \<^verbatim>\<open>break\<close>.\<close>

lemma matchOrders_Inr:
  assumes "matchOrders b = Inr (ts, b')"
  shows "ts = [] \<and> b' = b \<and> match_fill b = Inr None"
proof (cases "match_step b")
  case (Inl e)
  with assms show ?thesis by (simp add: matchOrders.simps)
next
  case (Inr r)
  show ?thesis
  proof (cases r)
    case None
    with Inr assms match_step_None [of b] show ?thesis by (simp add: matchOrders.simps)
  next
    case (Some tb)
    with Inr match_step_no_trade [of b tb] show ?thesis by simp
  qed
qed

lemma matchOrders_no_cross:
  "matchOrders b = Inr (ts, b') \<Longrightarrow> no_cross b'"
  using matchOrders_Inr [of b ts b'] match_fill_break [of b] by simp

lemma matchOrders_keys_sorted:
  "matchOrders b = Inr (ts, b') \<Longrightarrow> keys_sorted b \<Longrightarrow> keys_sorted b'"
  using matchOrders_Inr [of b ts b'] by simp

subsection \<open>\<^verbatim>\<open>add_market\<close>, \<^verbatim>\<open>cancel\<close> and \<^verbatim>\<open>add_limit\<close>\<close>

lemma consume_keys:
  "consume side mid qty opp idx = Inr (ts, q, opp', idx') \<Longrightarrow>
   \<exists>pre. map fst opp = pre @ map fst opp'"
proof (induction side mid qty opp idx arbitrary: ts q opp' idx' rule: consume.induct)
  case (1 side marketId qty idx)
  then show ?case by simp
next
  case (2 side marketId qty price level rest idx)
  show ?case
  proof (cases "qty = 0")
    case True
    with "2.prems" show ?thesis by simp
  next
    case False
    obtain ts1 q1 lvl1 idx1 where
      c: "consume_level side marketId price qty level idx = Inr (ts1, q1, lvl1, idx1)"
      using consume_level_total by blast
    obtain ts2 q2 opp2 idx2 where
      r: "consume side marketId q1 (if lvl1 = [] then rest else (price, lvl1) # rest) idx1
            = Inr (ts2, q2, opp2, idx2)"
      using consume_total by blast
    from "2.prems" False c r have "opp2 = opp'" by simp
    with "2.IH" [OF False c refl refl refl r] obtain pre where
      pre: "map fst (if lvl1 = [] then rest else (price, lvl1) # rest) = pre @ map fst opp'"
      by blast
    show ?thesis
    proof (cases "lvl1 = []")
      case True
      with pre have "map fst ((price, level) # rest) = (price # pre) @ map fst opp'" by simp
      then show ?thesis by blast
    next
      case False
      with pre have "map fst ((price, level) # rest) = pre @ map fst opp'" by simp
      then show ?thesis by blast
    qed
  qed
qed

lemma suffix_sorted:
  "xs = pre @ ys \<Longrightarrow> sorted_wrt R xs \<Longrightarrow> sorted_wrt R ys"
  by (simp add: sorted_wrt_append)

lemma suffix_hd:
  assumes "xs = pre @ ys" "sorted_wrt R xs" "ys \<noteq> []"
  shows "hd ys = hd xs \<or> R (hd xs) (hd ys)"
proof (cases pre)
  case Nil
  with assms show ?thesis by simp
next
  case (Cons p ps)
  with assms have "R p (hd ys)" by (auto simp: sorted_wrt_append)
  with Cons assms show ?thesis by simp
qed

lemma erase_node_nonempty: "erase_node it lvl = Inr lvl' \<Longrightarrow> lvl \<noteq> []"
  by (cases lvl) auto

lemma level_at_present: "level_at k m \<noteq> [] \<Longrightarrow> k \<in> fst ` set m"
  by (induction m) (auto split: if_splits)

lemma modify_at_present_keys:
  assumes "level_at k m \<noteq> []" and "sorted_wrt R (map fst m)" and "\<And>x y. R x y \<Longrightarrow> \<not> lt y x"
  shows "map fst (modify_at lt k f m) = map fst m"
  using assms(1,2)
proof (induction m)
  case Nil
  then show ?case by simp
next
  case (Cons pl m)
  obtain p l where pl: "pl = (p, l)" by (cases pl)
  show ?case
  proof (cases "k = p")
    case True
    then show ?thesis by (simp add: pl)
  next
    case False
    with Cons.prems(1) have ne: "level_at k m \<noteq> []" by (simp add: pl)
    from level_at_present [OF ne] Cons.prems(2) have "R p k" by (auto simp: pl)
    from assms(3) [OF this] have "\<not> lt k p" .
    moreover from Cons.prems(2) have "sorted_wrt R (map fst m)" by simp
    from Cons.IH [OF ne this] have "map fst (modify_at lt k f m) = map fst m" .
    ultimately show ?thesis using False by (simp add: pl)
  qed
qed

lemma cancel_keys:
  assumes "cancel oid b = Inr b'" and "keys_sorted b"
  shows "map fst (asks b') = map fst (asks b) \<and> map fst (bids b') = map fst (bids b)"
proof -
  from assms(1) obtain h where h: "orderIdToIterator b oid = Some h"
    by (auto simp: cancel_def split: option.splits)
  from assms(2) have sa: "sorted_wrt (<) (map fst (asks b))" and sb: "sorted_wrt (>) (map fst (bids b))"
    by (simp_all add: keys_sorted_def)
  show ?thesis
  proof (cases "h_side h")
    case BUY
    with assms(1) h obtain lvl where
      e: "erase_node (h_it h) (level_at (h_price h) (bids b)) = Inr lvl" and
      b': "b' = b\<lparr>bids := modify_at (>) (h_price h) (\<lambda>_. lvl) (bids b),
                   orderIdToIterator := (orderIdToIterator b)(oid := None)\<rparr>"
      by (auto simp: cancel_def split: sum.splits)
    from modify_at_present_keys [OF erase_node_nonempty [OF e] sb, of "(>)"] show ?thesis
      by (simp add: b')
  next
    case SELL
    with assms(1) h obtain lvl where
      e: "erase_node (h_it h) (level_at (h_price h) (asks b)) = Inr lvl" and
      b': "b' = b\<lparr>asks := modify_at (<) (h_price h) (\<lambda>_. lvl) (asks b),
                   orderIdToIterator := (orderIdToIterator b)(oid := None)\<rparr>"
      by (auto simp: cancel_def split: sum.splits)
    from modify_at_present_keys [OF erase_node_nonempty [OF e] sa, of "(<)"] show ?thesis
      by (simp add: b')
  qed
qed

lemma no_cross_keys:
  "no_cross b = (map fst (bids b) \<noteq> [] \<and> map fst (asks b) \<noteq> []
                   \<longrightarrow> hd (map fst (bids b)) < hd (map fst (asks b)))"
  by (cases "bids b"; cases "asks b") (simp_all add: no_cross_def)

lemma same_keys:
  assumes "map fst (asks b') = map fst (asks b)" "map fst (bids b') = map fst (bids b)"
  shows "no_cross b' = no_cross b" "keys_sorted b' = keys_sorted b"
  using assms by (simp_all add: no_cross_keys keys_sorted_def)

lemma add_market_keeps_no_cross:
  assumes "add_market side qty b = Inr (ts, b')" "keys_sorted b" "no_cross b"
  shows "keys_sorted b' \<and> no_cross b'"
proof (cases "qty = 0")
  case True
  with assms show ?thesis by (simp add: add_market_def)
next
  case False
  show ?thesis
  proof (cases side)
    case BUY
    with assms(1) False obtain q opp idx where
      c: "consume BUY (nextOrderId b) qty (asks b) (orderIdToIterator b) = Inr (ts, q, opp, idx)" and
      b': "b' = b\<lparr>nextOrderId := nextOrderId b + 1, asks := opp, orderIdToIterator := idx\<rparr>"
      by (auto simp: add_market_def nextId_def split: sum.splits)
    from consume_keys [OF c] obtain pre where pre: "map fst (asks b) = pre @ map fst opp" by blast
    from assms(2) have sa: "sorted_wrt (<) (map fst (asks b))" and sb: "sorted_wrt (>) (map fst (bids b))"
      by (simp_all add: keys_sorted_def)
    from suffix_sorted [OF pre sa] sb have ks: "keys_sorted b'"
      by (simp add: keys_sorted_def b')
    have "no_cross b'"
    proof (cases "bids b = [] \<or> opp = []")
      case True
      then show ?thesis by (auto simp: no_cross_keys b')
    next
      case False
      then have ne: "map fst opp \<noteq> []" "bids b \<noteq> []" by simp_all
      with pre have "asks b \<noteq> []" by auto
      with assms(3) ne have lt: "hd (map fst (bids b)) < hd (map fst (asks b))"
        by (simp add: no_cross_keys)
      from suffix_hd [OF pre sa ne(1)] lt have "hd (map fst (bids b)) < hd (map fst opp)"
        by auto
      then show ?thesis by (simp add: no_cross_keys b')
    qed
    with ks show ?thesis by simp
  next
    case SELL
    with assms(1) False obtain q opp idx where
      c: "consume SELL (nextOrderId b) qty (bids b) (orderIdToIterator b) = Inr (ts, q, opp, idx)" and
      b': "b' = b\<lparr>nextOrderId := nextOrderId b + 1, bids := opp, orderIdToIterator := idx\<rparr>"
      by (auto simp: add_market_def nextId_def split: sum.splits)
    from consume_keys [OF c] obtain pre where pre: "map fst (bids b) = pre @ map fst opp" by blast
    from assms(2) have sa: "sorted_wrt (<) (map fst (asks b))" and sb: "sorted_wrt (>) (map fst (bids b))"
      by (simp_all add: keys_sorted_def)
    from suffix_sorted [OF pre sb] sa have ks: "keys_sorted b'"
      by (simp add: keys_sorted_def b')
    have "no_cross b'"
    proof (cases "asks b = [] \<or> opp = []")
      case True
      then show ?thesis by (auto simp: no_cross_keys b')
    next
      case False
      then have ne: "map fst opp \<noteq> []" "asks b \<noteq> []" by simp_all
      with pre have "bids b \<noteq> []" by auto
      with assms(3) ne have lt: "hd (map fst (bids b)) < hd (map fst (asks b))"
        by (simp add: no_cross_keys)
      from suffix_hd [OF pre sb ne(1)] lt have "hd (map fst opp) < hd (map fst (asks b))"
        by auto
      then show ?thesis by (simp add: no_cross_keys b')
    qed
    with ks show ?thesis by simp
  qed
qed

lemma keys_sorted_created:
  "keys_sorted b \<Longrightarrow>
   keys_sorted (b\<lparr>bids := modify_at (>) price f (bids b)\<rparr>) \<and>
   keys_sorted (b\<lparr>asks := modify_at (<) price f (asks b)\<rparr>)"
  by (simp add: keys_sorted_def sorted_modify_at_less sorted_modify_at_greater)

lemma keys_sorted_irrelevant [simp]:
  "keys_sorted (b\<lparr>orderIdToIterator := i\<rparr>) = keys_sorted b"
  "keys_sorted (b\<lparr>nextOrderId := n\<rparr>) = keys_sorted b"
  by (simp_all add: keys_sorted_def)

lemma keys_sorted_insert_limit:
  "keys_sorted b \<Longrightarrow> keys_sorted (insert_limit side price qty b)"
  using keys_sorted_created [of "b\<lparr>nextOrderId := nextOrderId b + 1\<rparr>"]
  by (cases side) (simp_all add: insert_limit_def nextId_def Let_def)

lemma add_limit_keeps_no_cross:
  assumes "add_limit side price qty b = Inr (ts, b')" "keys_sorted b"
  shows "keys_sorted b' \<and> no_cross b'"
proof -
  let ?b1 = "b\<lparr>nextOrderId := nextOrderId b + 1\<rparr>"
  let ?b2 = "if side = BUY then ?b1\<lparr>bids := modify_at (>) price (\<lambda>l. l) (bids ?b1)\<rparr>
             else ?b1\<lparr>asks := modify_at (<) price (\<lambda>l. l) (asks ?b1)\<rparr>"
  let ?b3 = "?b2\<lparr>orderIdToIterator :=
               index_insert (nextOrderId b) \<lparr>h_side = side, h_price = price, h_it = nextOrderId b\<rparr>
                 (orderIdToIterator ?b2)\<rparr>"
  from assms(1) have m: "matchOrders ?b3 = Inr (ts, b')"
    by (simp add: add_limit_def nextId_def Let_def)
  from assms(2) have "keys_sorted ?b1" by simp
  from keys_sorted_created [OF this] have "keys_sorted ?b3" by simp
  from matchOrders_keys_sorted [OF m this] matchOrders_no_cross [OF m] show ?thesis by simp
qed

lemma cancel_keeps_no_cross:
  assumes "cancel oid b = Inr b'" "keys_sorted b" "no_cross b"
  shows "keys_sorted b' \<and> no_cross b'"
proof -
  from cancel_keys [OF assms(1,2)] have
    "map fst (asks b') = map fst (asks b)" "map fst (bids b') = map fst (bids b)"
    by simp_all
  from same_keys [OF this] assms(2,3) show ?thesis by simp
qed

text \<open>
  Claim C1, at the failing input. \<open>book_before\<close> is the book \<^verbatim>\<open>OrderBook.cpp\<close> holds
  after three limit orders that do not cross: asks at 99 and at 200, a bid at 50. A
  buy of 10 at 101 is then appended to the bids. \<^verbatim>\<open>matchOrders\<close> has no body, so
  \<^verbatim>\<open>add_limit\<close> ends with the book crossed, the best bid 101 above the best ask 99,
  and nothing has been matched away. In \<^verbatim>\<open>OrderBookOptimized.cpp\<close> the same call on
  \<open>book_before\<close> ends in \<^verbatim>\<open>front()\<close> of the empty level at 101, the order having been
  appended to a copy of the level; run on the crossed book, the loop of
  \<^verbatim>\<open>matchOrders\<close> fills the ask at 99, pops it and reads it for the trade record.
\<close>

theorem limit_order_leaves_book_crossed:
  "snd (add_limit_base BUY 50 5
          (snd (add_limit_base SELL 200 5
             (snd (add_limit_base SELL 99 5 newOrderBook))))) = book_before \<and>
   keys_sorted book_before \<and> \<not> crossed book_before \<and>
   add_limit_base BUY 101 10 book_before = (Inl NoReturn, book_crossed) \<and>
   keys_sorted book_crossed \<and>
   fst (hd (bids book_crossed)) = 101 \<and> fst (hd (asks book_crossed)) = 99 \<and>
   hd (snd (hd (bids book_crossed))) = allocate 4 BUY LIMIT 10 101 \<and>
   hd (snd (hd (asks book_crossed))) = allocate 1 SELL LIMIT 5 99 \<and>
   crossed book_crossed \<and>
   add_limit BUY 101 10 book_before = Inl EmptyLevelFront \<and>
   matchOrders book_crossed = Inl DestroyedOrderRead"
proof -
  have 1: "snd (add_limit_base BUY 50 5
          (snd (add_limit_base SELL 200 5
             (snd (add_limit_base SELL 99 5 newOrderBook))))) = book_before"
    by (simp add: add_limit_base_def matchOrders_base_def book_before_reached)
  have 2: "keys_sorted book_before" "\<not> crossed book_before"
    by (simp_all add: keys_sorted_def crossed_def book_before_def)
  have 3: "add_limit_base BUY 101 10 book_before = (Inl NoReturn, book_crossed)"
    by (simp add: add_limit_base_def matchOrders_base_def book_crossed_def)
  have 4: "keys_sorted book_crossed" "fst (hd (bids book_crossed)) = 101"
    "fst (hd (asks book_crossed)) = 99" "crossed book_crossed"
    "hd (snd (hd (bids book_crossed))) = allocate 4 BUY LIMIT 10 101"
    "hd (snd (hd (asks book_crossed))) = allocate 1 SELL LIMIT 5 99"
    by (simp_all add: keys_sorted_def crossed_def book_crossed_eq)
  have 5: "add_limit BUY 101 10 book_before = Inl EmptyLevelFront"
    by (simp add: add_limit_def book_before_def eval_defs)
  from 1 2 3 4 5 matchOrders_book_crossed show ?thesis by blast
qed

section \<open>The trades of \<^verbatim>\<open>add_market\<close>\<close>

text \<open>
  The walk of \<^verbatim>\<open>consume\<close> splits the queue of the opposing side into the orders it
  has filled completely and the rest. Its trades are the complete fills of the first
  part, in order, followed by at most one partial fill, of the order at the head of
  the rest.
\<close>

lemma consume_level_zero [simp]:
  "consume_level side mid price 0 lvl idx = Inr ([], 0, lvl, idx)"
  by (cases lvl) simp_all

lemma consume_level_shape:
  "consume_level side mid price qty lvl idx = Inr (ts, q, lvl', idx') \<Longrightarrow>
   \<exists>filled todo. lvl = filled @ todo \<and> idx' = unindex filled idx \<and>
     ((ts = map (\<lambda>ord. full_fill side mid (price, ord)) filled \<and> lvl' = todo \<and> (todo \<noteq> [] \<longrightarrow> q = 0)) \<or>
      (\<exists>ord rest e. todo = ord # rest \<and> e \<noteq> 0 \<and> e < remainingQty ord \<and> q = 0 \<and>
         ts = map (\<lambda>ord. full_fill side mid (price, ord)) filled @ [part_fill side mid (price, ord) e] \<and>
         lvl' = reduced ord e # rest))"
proof (induction lvl arbitrary: qty idx ts q lvl' idx')
  case Nil
  then show ?case by simp
next
  case (Cons r rest)
  show ?case
  proof (cases "qty = 0")
    case True
    with Cons.prems have "ts = []" "lvl' = r # rest" "q = 0" "idx' = idx" by simp_all
    then have "r # rest = [] @ (r # rest) \<and> idx' = unindex [] idx \<and>
       ts = map (\<lambda>ord. full_fill side mid (price, ord)) [] \<and> lvl' = r # rest \<and> q = 0"
      by simp
    then show ?thesis by blast
  next
    case False
    let ?e = "min qty (remainingQty r)"
    let ?r' = "r\<lparr>remainingQty := remainingQty r - ?e\<rparr>"
    show ?thesis
    proof (cases "isFilled ?r'")
      case True
      then have e: "?e = remainingQty r"
        by (auto simp: isFilled_def min_def)
      obtain ts0 q0 l0 i0 where
        c: "consume_level side mid price (qty - ?e) rest (idx(order_id r := None)) = Inr (ts0, q0, l0, i0)"
        using consume_level_total by blast
      from Cons.prems False True c have
        r: "ts = market_trade side mid (order_id r) price ?e # ts0" "q = q0" "lvl' = l0" "idx' = i0"
        by (simp_all add: fill_min_right Let_def)
      from Cons.IH [OF c] obtain filled todo where
        sp: "rest = filled @ todo" and ix: "i0 = unindex filled (idx(order_id r := None))" and
        d: "(ts0 = map (\<lambda>ord. full_fill side mid (price, ord)) filled \<and> l0 = todo \<and> (todo \<noteq> [] \<longrightarrow> q0 = 0)) \<or>
            (\<exists>ord rest' e. todo = ord # rest' \<and> e \<noteq> 0 \<and> e < remainingQty ord \<and> q0 = 0 \<and>
               ts0 = map (\<lambda>ord. full_fill side mid (price, ord)) filled @ [part_fill side mid (price, ord) e] \<and>
               l0 = reduced ord e # rest')"
        by blast
      have t: "market_trade side mid (order_id r) price ?e = full_fill side mid (price, r)"
        by (simp add: full_fill_def e)
      have "r # rest = (r # filled) @ todo" using sp by simp
      moreover have "idx' = unindex (r # filled) idx" using ix r by (simp add: unindex_Cons)
      moreover have
        "(ts = map (\<lambda>ord. full_fill side mid (price, ord)) (r # filled) \<and> lvl' = todo \<and> (todo \<noteq> [] \<longrightarrow> q = 0)) \<or>
         (\<exists>ord rest' e. todo = ord # rest' \<and> e \<noteq> 0 \<and> e < remainingQty ord \<and> q = 0 \<and>
            ts = map (\<lambda>ord. full_fill side mid (price, ord)) (r # filled) @ [part_fill side mid (price, ord) e] \<and>
            lvl' = reduced ord e # rest')"
        using d r t by auto
      ultimately show ?thesis by blast
    next
      case nf: False
      have eq: "?e = qty"
      proof (rule ccontr)
        assume "?e \<noteq> qty"
        then have "?e = remainingQty r" by (auto simp: min_def)
        with nf show False by (simp add: isFilled_def)
      qed
      with nf have lt: "qty < remainingQty r"
        by (auto simp: isFilled_def min_def split: if_splits)
      from lt have f: "fill qty r = Inr (r\<lparr>remainingQty := remainingQty r - qty\<rparr>)"
        by (simp add: fill_def not_less less_imp_le)
      from Cons.prems False nf eq f have
        r: "ts = [market_trade side mid (order_id r) price qty]" "q = 0" "lvl' = ?r' # rest" "idx' = idx"
        by (simp_all add: Let_def)
      have "r # rest = [] @ (r # rest) \<and> idx' = unindex [] idx \<and>
            qty \<noteq> 0 \<and> qty < remainingQty r \<and> q = 0 \<and>
            ts = map (\<lambda>ord. full_fill side mid (price, ord)) [] @ [part_fill side mid (price, r) qty] \<and>
            lvl' = reduced r qty # rest"
        using r False lt eq by (simp add: part_fill_def reduced_def)
      then show ?thesis by blast
    qed
  qed
qed


lemma consume_zero [simp]: "consume side mid 0 opp idx = Inr ([], 0, opp, idx)"
  by (cases opp) auto

lemma consume_shape:
  "consume side mid qty opp idx = Inr (ts, q, opp', idx') \<Longrightarrow>
   \<exists>filled todo. priced opp = filled @ todo \<and> idx' = unindex (map snd filled) idx \<and>
     ((ts = map (full_fill side mid) filled \<and> priced opp' = todo \<and> (todo \<noteq> [] \<longrightarrow> q = 0)) \<or>
      (\<exists>po rest e. todo = po # rest \<and> e \<noteq> 0 \<and> e < remainingQty (snd po) \<and> q = 0 \<and>
         ts = map (full_fill side mid) filled @ [part_fill side mid po e] \<and>
         priced opp' = (fst po, reduced (snd po) e) # rest))"
proof (induction opp arbitrary: qty idx ts q opp' idx')
  case Nil
  then show ?case by simp
next
  case (Cons pl rest0)
  obtain price level where pl: "pl = (price, level)" by (cases pl)
  show ?case
  proof (cases "qty = 0")
    case True
    with Cons.prems have "ts = []" "opp' = pl # rest0" "q = 0" "idx' = idx" by simp_all
    then have "priced (pl # rest0) = [] @ priced (pl # rest0) \<and> idx' = unindex (map snd []) idx \<and>
       ts = map (full_fill side mid) [] \<and> priced opp' = priced (pl # rest0) \<and> q = 0"
      by simp
    then show ?thesis by blast
  next
    case False
    obtain ts1 q1 l1 i1 where
      c: "consume_level side mid price qty level idx = Inr (ts1, q1, l1, i1)"
      using consume_level_total by blast
    obtain ts2 q2 o2 i2 where
      r: "consume side mid q1 (if l1 = [] then rest0 else (price, l1) # rest0) i1 = Inr (ts2, q2, o2, i2)"
      using consume_total by blast
    from Cons.prems False c r have
      res: "ts = ts1 @ ts2" "q = q2" "opp' = o2" "idx' = i2"
      by (simp_all add: pl)
    from consume_level_shape [OF c] obtain f1 t1 where
      sp: "level = f1 @ t1" and ix: "i1 = unindex f1 idx" and
      d: "(ts1 = map (\<lambda>ord. full_fill side mid (price, ord)) f1 \<and> l1 = t1 \<and> (t1 \<noteq> [] \<longrightarrow> q1 = 0)) \<or>
          (\<exists>ord rest e. t1 = ord # rest \<and> e \<noteq> 0 \<and> e < remainingQty ord \<and> q1 = 0 \<and>
             ts1 = map (\<lambda>ord. full_fill side mid (price, ord)) f1 @ [part_fill side mid (price, ord) e] \<and>
             l1 = reduced ord e # rest)"
      by blast
    have pr: "priced (pl # rest0) = map (Pair price) f1 @ map (Pair price) t1 @ priced rest0"
      by (simp add: pl sp)
    have ms: "map snd (map (Pair price) f1) = f1" by (simp add: comp_def)
    have mf: "map (full_fill side mid) (map (Pair price) f1) = map (\<lambda>ord. full_fill side mid (price, ord)) f1"
      by (simp add: comp_def)
    from d show ?thesis
    proof
      assume a: "ts1 = map (\<lambda>ord. full_fill side mid (price, ord)) f1 \<and> l1 = t1 \<and> (t1 \<noteq> [] \<longrightarrow> q1 = 0)"
      show ?thesis
      proof (cases "t1 = []")
        case True
        with a r have r': "consume side mid q1 rest0 i1 = Inr (ts2, q2, o2, i2)" by simp
        from Cons.IH [OF r'] obtain f2 t2 where
          sp2: "priced rest0 = f2 @ t2" and ix2: "i2 = unindex (map snd f2) i1" and
          d2: "(ts2 = map (full_fill side mid) f2 \<and> priced o2 = t2 \<and> (t2 \<noteq> [] \<longrightarrow> q2 = 0)) \<or>
               (\<exists>po rest e. t2 = po # rest \<and> e \<noteq> 0 \<and> e < remainingQty (snd po) \<and> q2 = 0 \<and>
                  ts2 = map (full_fill side mid) f2 @ [part_fill side mid po e] \<and>
                  priced o2 = (fst po, reduced (snd po) e) # rest)"
          by blast
        let ?f = "map (Pair price) f1 @ f2"
        have "priced (pl # rest0) = ?f @ t2" using pr sp2 True by simp
        moreover have "idx' = unindex (map snd ?f) idx"
          using res ix ix2 by (simp add: unindex_append comp_def)
        moreover have
          "(ts = map (full_fill side mid) ?f \<and> priced opp' = t2 \<and> (t2 \<noteq> [] \<longrightarrow> q = 0)) \<or>
           (\<exists>po rest e. t2 = po # rest \<and> e \<noteq> 0 \<and> e < remainingQty (snd po) \<and> q = 0 \<and>
              ts = map (full_fill side mid) ?f @ [part_fill side mid po e] \<and>
              priced opp' = (fst po, reduced (snd po) e) # rest)"
          using d2 res a by (auto simp: comp_def)
        ultimately show ?thesis by blast
      next
        case False
        with a have q1: "q1 = 0" and l1: "l1 = t1" by simp_all
        from r q1 l1 False have "ts2 = []" "q2 = 0" "o2 = (price, t1) # rest0" "i2 = i1" by simp_all
        with res a have
          "ts = map (full_fill side mid) (map (Pair price) f1)" "q = 0"
          "priced opp' = map (Pair price) t1 @ priced rest0" "idx' = i1"
          by (simp_all add: comp_def)
        with pr ix ms have
          "priced (pl # rest0) = map (Pair price) f1 @ (map (Pair price) t1 @ priced rest0) \<and>
           idx' = unindex (map snd (map (Pair price) f1)) idx \<and>
           ts = map (full_fill side mid) (map (Pair price) f1) \<and>
           priced opp' = map (Pair price) t1 @ priced rest0 \<and> q = 0"
          by simp
        then show ?thesis by blast
      qed
    next
      assume "\<exists>ord rest e. t1 = ord # rest \<and> e \<noteq> 0 \<and> e < remainingQty ord \<and> q1 = 0 \<and>
             ts1 = map (\<lambda>ord. full_fill side mid (price, ord)) f1 @ [part_fill side mid (price, ord) e] \<and>
             l1 = reduced ord e # rest"
      then obtain ord rest e where
        t1: "t1 = ord # rest" and e: "e \<noteq> 0" "e < remainingQty ord" and q1: "q1 = 0" and
        ts1: "ts1 = map (\<lambda>ord. full_fill side mid (price, ord)) f1 @ [part_fill side mid (price, ord) e]" and
        l1: "l1 = reduced ord e # rest"
        by blast
      from r q1 l1 have "ts2 = []" "q2 = 0" "o2 = (price, reduced ord e # rest) # rest0" "i2 = i1"
        by simp_all
      with res ts1 have
        "ts = map (full_fill side mid) (map (Pair price) f1) @ [part_fill side mid (price, ord) e]" "q = 0"
        "priced opp' = (price, reduced ord e) # (map (Pair price) rest @ priced rest0)" "idx' = i1"
        by (simp_all add: comp_def)
      with pr ix ms t1 e have
        "priced (pl # rest0) = map (Pair price) f1 @ ((price, ord) # (map (Pair price) rest @ priced rest0)) \<and>
         idx' = unindex (map snd (map (Pair price) f1)) idx \<and>
         e \<noteq> 0 \<and> e < remainingQty (snd (price, ord)) \<and> q = 0 \<and>
         ts = map (full_fill side mid) (map (Pair price) f1) @ [part_fill side mid (price, ord) e] \<and>
         priced opp' = (fst (price, ord), reduced (snd (price, ord)) e) # (map (Pair price) rest @ priced rest0)"
        by simp
      then show ?thesis by blast
    qed
  qed
qed

section \<open>Orders of a level are filled in their queue order\<close>

lemma add_market_shape:
  assumes "add_market side qty b = Inr (ts, b')"
  shows "\<exists>filled todo. priced (opposing side b) = filled @ todo \<and>
           orderIdToIterator b' = unindex (map snd filled) (orderIdToIterator b) \<and>
           own_side side b' = own_side side b \<and>
           ((ts = map (full_fill side (nextOrderId b)) filled \<and> priced (opposing side b') = todo) \<or>
            (\<exists>po rest e. todo = po # rest \<and> e \<noteq> 0 \<and> e < remainingQty (snd po) \<and>
               ts = map (full_fill side (nextOrderId b)) filled @ [part_fill side (nextOrderId b) po e] \<and>
               priced (opposing side b') = (fst po, reduced (snd po) e) # rest))"
proof (cases "qty = 0")
  case True
  with assms have "ts = []" "b' = b" by (simp_all add: add_market_def)
  then have "priced (opposing side b) = [] @ priced (opposing side b) \<and>
           orderIdToIterator b' = unindex (map snd []) (orderIdToIterator b) \<and>
           own_side side b' = own_side side b \<and>
           ts = map (full_fill side (nextOrderId b)) [] \<and> priced (opposing side b') = priced (opposing side b)"
    by simp
  then show ?thesis by blast
next
  case False
  have "\<exists>q. consume side (nextOrderId b) qty (opposing side b) (orderIdToIterator b)
              = Inr (ts, q, opposing side b', orderIdToIterator b') \<and>
            own_side side b' = own_side side b"
  proof (cases side)
    case BUY
    obtain ts0 q opp idx where
      c: "consume BUY (nextOrderId b) qty (asks b) (orderIdToIterator b) = Inr (ts0, q, opp, idx)"
      using consume_total by blast
    from assms False BUY have
      "add_market BUY qty b = Inr (ts, b')" by simp
    with False c have "ts = ts0" "asks b' = opp" "orderIdToIterator b' = idx" "bids b' = bids b"
      by (auto simp: add_market_def nextId_def)
    with c BUY show ?thesis by (simp add: opposing_def own_side_def)
  next
    case SELL
    obtain ts0 q opp idx where
      c: "consume SELL (nextOrderId b) qty (bids b) (orderIdToIterator b) = Inr (ts0, q, opp, idx)"
      using consume_total by blast
    from assms False SELL have
      "add_market SELL qty b = Inr (ts, b')" by simp
    with False c have "ts = ts0" "bids b' = opp" "orderIdToIterator b' = idx" "asks b' = asks b"
      by (auto simp: add_market_def nextId_def)
    with c SELL show ?thesis by (simp add: opposing_def own_side_def)
  qed
  then obtain q where
    c: "consume side (nextOrderId b) qty (opposing side b) (orderIdToIterator b)
          = Inr (ts, q, opposing side b', orderIdToIterator b')" and
    o: "own_side side b' = own_side side b"
    by blast
  from consume_shape [OF c] o show ?thesis by blast
qed

lemma full_fill_part_fill: "full_fill side mid po = part_fill side mid po (remainingQty (snd po))"
  by (simp add: full_fill_def part_fill_def)

lemma shape_positions:
  assumes "queue = filled @ todo"
    and "ts = map (full_fill side mid) filled \<or>
         (\<exists>po rest e. todo = po # rest \<and> e \<noteq> 0 \<and> e < remainingQty (snd po) \<and>
            ts = map (full_fill side mid) filled @ [part_fill side mid po e])"
  shows "length ts \<le> length queue"
    and "\<forall>j<length ts. \<exists>e. ts ! j = part_fill side mid (queue ! j) e \<and> e \<le> remainingQty (snd (queue ! j))"
    and "\<forall>j<length ts. \<forall>i<j. ts ! i = full_fill side mid (queue ! i)"
proof -
  have pre: "\<And>i. i < length filled \<Longrightarrow> ts ! i = full_fill side mid (queue ! i)"
    using assms by (auto simp: nth_append)
  have len: "length ts = length filled \<or>
      (\<exists>po rest e. todo = po # rest \<and> e < remainingQty (snd po) \<and> length ts = Suc (length filled) \<and>
         ts ! length filled = part_fill side mid po e)"
    using assms(2) by (auto simp: nth_append)
  from len assms(1) show "length ts \<le> length queue" by auto
  show "\<forall>j<length ts. \<exists>e. ts ! j = part_fill side mid (queue ! j) e \<and> e \<le> remainingQty (snd (queue ! j))"
  proof (intro allI impI)
    fix j assume j: "j < length ts"
    show "\<exists>e. ts ! j = part_fill side mid (queue ! j) e \<and> e \<le> remainingQty (snd (queue ! j))"
    proof (cases "j < length filled")
      case True
      from pre [OF this] show ?thesis by (auto simp: full_fill_part_fill)
    next
      case False
      with j len obtain po rest e where
        "todo = po # rest" "e < remainingQty (snd po)" "j = length filled"
        "ts ! length filled = part_fill side mid po e"
        by auto
      with assms(1) have "ts ! j = part_fill side mid (queue ! j) e \<and> e \<le> remainingQty (snd (queue ! j))"
        by (simp add: nth_append)
      then show ?thesis by blast
    qed
  qed
  show "\<forall>j<length ts. \<forall>i<j. ts ! i = full_fill side mid (queue ! i)"
  proof (intro allI impI)
    fix j i assume "j < length ts" "i < j"
    with len have "i < length filled" by auto
    from pre [OF this] show "ts ! i = full_fill side mid (queue ! i)" .
  qed
qed

lemma level_at_absent: "k \<notin> fst ` set m \<Longrightarrow> level_at k m = []"
  by (induction m) auto

lemma level_at_modify_at:
  assumes "sorted_wrt R (map fst m)" and "\<And>x y. R x y \<Longrightarrow> \<not> lt y x"
  shows "level_at k (modify_at lt k f m) = f (level_at k m)"
  using assms(1)
proof (induction m)
  case Nil
  show ?case by simp
next
  case (Cons pl m)
  obtain p l where pl: "pl = (p, l)" by (cases pl)
  show ?case
  proof (cases "k = p")
    case True
    then show ?thesis by (simp add: pl)
  next
    case False
    show ?thesis
    proof (cases "lt k p")
      case True
      have "k \<notin> fst ` set m"
      proof
        assume "k \<in> fst ` set m"
        with Cons.prems have "R p k" by (auto simp: pl)
        from assms(2) [OF this] True show False by simp
      qed
      from level_at_absent [OF this] True False show ?thesis by (simp add: pl)
    next
      case nlt: False
      from Cons.prems have "sorted_wrt R (map fst m)" by simp
      from Cons.IH [OF this] False nlt show ?thesis by (simp add: pl)
    qed
  qed
qed

lemma insert_limit_own_level:
  assumes "keys_sorted b"
  shows "level_at price (own_side side (insert_limit side price qty b))
         = level_at price (own_side side b) @ [allocate (nextOrderId b) side LIMIT qty price]"
proof -
  from assms have sa: "sorted_wrt (<) (map fst (asks b))" and sb: "sorted_wrt (>) (map fst (bids b))"
    by (simp_all add: keys_sorted_def)
  show ?thesis
  proof (cases side)
    case BUY
    with level_at_modify_at [OF sb, of "(>)" price "\<lambda>orders. orders @ [allocate (nextOrderId b) side LIMIT qty price]"]
    show ?thesis
      by (simp add: insert_limit_def nextId_def own_side_def allocate_def Let_def)
  next
    case SELL
    with level_at_modify_at [OF sa, of "(<)" price "\<lambda>orders. orders @ [allocate (nextOrderId b) side LIMIT qty price]"]
    show ?thesis
      by (simp add: insert_limit_def nextId_def own_side_def allocate_def Let_def)
  qed
qed

lemma match_fill_fronts:
  assumes "match_fill b = Inr (Some (bid, ask, exec, b1))"
  shows "flat (bids b) \<noteq> [] \<and> flat (asks b) \<noteq> [] \<and>
         bid = reduced (hd (flat (bids b))) exec \<and> ask = reduced (hd (flat (asks b))) exec \<and>
         flat (bids b1) = bid # tl (flat (bids b)) \<and> flat (asks b1) = ask # tl (flat (asks b))"
proof -
  from match_fill_SomeD [OF assms] obtain bestAsk ask0 askTl asksRest bestBid bid0 bidTl bidsRest where
    "asks b = (bestAsk, ask0 # askTl) # asksRest" "bids b = (bestBid, bid0 # bidTl) # bidsRest"
    "bid = bid0\<lparr>remainingQty := remainingQty bid0 - exec\<rparr>"
    "ask = ask0\<lparr>remainingQty := remainingQty ask0 - exec\<rparr>"
    "b1 = b\<lparr>asks := (bestAsk, ask # askTl) # asksRest, bids := (bestBid, bid # bidTl) # bidsRest\<rparr>"
    by blast
  then show ?thesis by (simp add: reduced_def)
qed

text \<open>
  Claim C6. Orders of one level are queued in the order of their arrival:
  \<^verbatim>\<open>add_limit\<close> of \<^verbatim>\<open>OrderBook.cpp\<close> appends the new order behind the orders already
  at its price. A market order walks the queue of the opposing side (best level
  first, each level from its front) strictly from the head: its \<open>j\<close>-th trade is
  against the \<open>j\<close>-th order of the queue, and when it has a \<open>j\<close>-th trade every order
  before the \<open>j\<close>-th has been filled completely by an earlier trade and has left the
  ledger. So an order \<open>B\<close> queued behind \<open>A\<close> at the same level receives no fill while
  \<open>A\<close> rests with quantity left. A fill of the crossing loop goes to the front order of
  the best bid level and to the front order of the best ask level, and to no other
  order.
\<close>

theorem fifo_within_level:
  assumes "keys_sorted b"
  shows "level_at price (own_side side (insert_limit side price qty b))
           = level_at price (own_side side b) @ [allocate (nextOrderId b) side LIMIT qty price] \<and>
         (add_market side qty b = Inr (ts, b') \<longrightarrow>
            (\<exists>filled todo. priced (opposing side b) = filled @ todo \<and>
               ((ts = map (full_fill side (nextOrderId b)) filled \<and> priced (opposing side b') = todo) \<or>
                (\<exists>po rest e. todo = po # rest \<and> e \<noteq> 0 \<and> e < remainingQty (snd po) \<and>
                   ts = map (full_fill side (nextOrderId b)) filled @ [part_fill side (nextOrderId b) po e] \<and>
                   priced (opposing side b') = (fst po, reduced (snd po) e) # rest))) \<and>
            length ts \<le> length (priced (opposing side b)) \<and>
            (\<forall>j<length ts. \<exists>e. ts ! j = part_fill side (nextOrderId b) (priced (opposing side b) ! j) e \<and>
                                 e \<le> remainingQty (snd (priced (opposing side b) ! j))) \<and>
            (\<forall>j<length ts. \<forall>i<j. ts ! i = full_fill side (nextOrderId b) (priced (opposing side b) ! i))) \<and>
         (match_fill b = Inr (Some (bid, ask, exec, b1)) \<longrightarrow>
            flat (bids b) \<noteq> [] \<and> flat (asks b) \<noteq> [] \<and>
            bid = reduced (hd (flat (bids b))) exec \<and> ask = reduced (hd (flat (asks b))) exec \<and>
            flat (bids b1) = bid # tl (flat (bids b)) \<and> flat (asks b1) = ask # tl (flat (asks b)))"
proof (intro conjI impI)
  show "level_at price (own_side side (insert_limit side price qty b))
           = level_at price (own_side side b) @ [allocate (nextOrderId b) side LIMIT qty price]"
    by (rule insert_limit_own_level [OF assms])
next
  assume a: "add_market side qty b = Inr (ts, b')"
  from add_market_shape [OF a] obtain filled todo where
    sp: "priced (opposing side b) = filled @ todo" and
    d: "(ts = map (full_fill side (nextOrderId b)) filled \<and> priced (opposing side b') = todo) \<or>
        (\<exists>po rest e. todo = po # rest \<and> e \<noteq> 0 \<and> e < remainingQty (snd po) \<and>
           ts = map (full_fill side (nextOrderId b)) filled @ [part_fill side (nextOrderId b) po e] \<and>
           priced (opposing side b') = (fst po, reduced (snd po) e) # rest)"
    by blast
  from sp d show "\<exists>filled todo. priced (opposing side b) = filled @ todo \<and>
               ((ts = map (full_fill side (nextOrderId b)) filled \<and> priced (opposing side b') = todo) \<or>
                (\<exists>po rest e. todo = po # rest \<and> e \<noteq> 0 \<and> e < remainingQty (snd po) \<and>
                   ts = map (full_fill side (nextOrderId b)) filled @ [part_fill side (nextOrderId b) po e] \<and>
                   priced (opposing side b') = (fst po, reduced (snd po) e) # rest))"
    by blast
  from d have d': "ts = map (full_fill side (nextOrderId b)) filled \<or>
         (\<exists>po rest e. todo = po # rest \<and> e \<noteq> 0 \<and> e < remainingQty (snd po) \<and>
            ts = map (full_fill side (nextOrderId b)) filled @ [part_fill side (nextOrderId b) po e])"
    by blast
  from shape_positions [OF sp d']
  show "length ts \<le> length (priced (opposing side b))"
    and "\<forall>j<length ts. \<exists>e. ts ! j = part_fill side (nextOrderId b) (priced (opposing side b) ! j) e \<and>
                                 e \<le> remainingQty (snd (priced (opposing side b) ! j))"
    and "\<forall>j<length ts. \<forall>i<j. ts ! i = full_fill side (nextOrderId b) (priced (opposing side b) ! i)"
    by blast+
next
  assume m: "match_fill b = Inr (Some (bid, ask, exec, b1))"
  from match_fill_fronts [OF m]
  show "flat (bids b) \<noteq> []" and "flat (asks b) \<noteq> []"
    and "bid = reduced (hd (flat (bids b))) exec" and "ask = reduced (hd (flat (asks b))) exec"
    and "flat (bids b1) = bid # tl (flat (bids b))" and "flat (asks b1) = ask # tl (flat (asks b))"
    by simp_all
qed

theorem fifo_within_level_witness:
  "keys_sorted book_asks60 \<and>
   level_at 100 (asks (insert_limit SELL 100 7 book_asks60))
     = [allocate 1 SELL LIMIT 25 100, allocate 2 SELL LIMIT 15 100, allocate 5 SELL LIMIT 7 100] \<and>
   add_market BUY 30 book_asks60
     = Inr ([mkTrade 5 100 25 1 100 25, mkTrade 5 100 5 2 100 5],
            book_asks60\<lparr>asks := [(100, [reduced (allocate 2 SELL LIMIT 15 100) 5]),
                                  (101, [allocate 3 SELL LIMIT 20 101])],
                         orderIdToIterator := (orderIdToIterator book_asks60)(1 := None),
                         nextOrderId := 6\<rparr>) \<and>
   [mkTrade 5 100 25 1 100 25, mkTrade 5 100 5 2 100 5] ! 0
     = full_fill BUY 5 (100, allocate 1 SELL LIMIT 25 100) \<and>
   keys_sorted book_crossed \<and>
   match_fill book_crossed
     = Inr (Some ((allocate 4 BUY LIMIT 10 101)\<lparr>remainingQty := 5\<rparr>,
                  (allocate 1 SELL LIMIT 5 99)\<lparr>remainingQty := 0\<rparr>, 5, book_filled)) \<and>
   (allocate 4 BUY LIMIT 10 101)\<lparr>remainingQty := 5\<rparr> = reduced (allocate 4 BUY LIMIT 10 101) 5 \<and>
   (allocate 1 SELL LIMIT 5 99)\<lparr>remainingQty := 0\<rparr> = reduced (allocate 1 SELL LIMIT 5 99) 5 \<and>
   flat (bids book_filled)
     = [(allocate 4 BUY LIMIT 10 101)\<lparr>remainingQty := 5\<rparr>, allocate 3 BUY LIMIT 5 50] \<and>
   flat (asks book_filled)
     = [(allocate 1 SELL LIMIT 5 99)\<lparr>remainingQty := 0\<rparr>, allocate 2 SELL LIMIT 5 200]"
proof -
  let ?ts = "[mkTrade 5 100 25 1 100 25, mkTrade 5 100 5 2 100 5]"
  let ?b' = "book_asks60\<lparr>asks := [(100, [reduced (allocate 2 SELL LIMIT 15 100) 5]),
                                  (101, [allocate 3 SELL LIMIT 20 101])],
                         orderIdToIterator := (orderIdToIterator book_asks60)(1 := None),
                         nextOrderId := 6\<rparr>"
  let ?B = "(allocate 4 BUY LIMIT 10 101)\<lparr>remainingQty := 5\<rparr>"
  let ?A = "(allocate 1 SELL LIMIT 5 99)\<lparr>remainingQty := 0\<rparr>"
  have k: "keys_sorted book_asks60"
    by (simp add: keys_sorted_def book_asks60_def)
  have am: "add_market BUY 30 book_asks60 = Inr (?ts, ?b')"
    by (simp add: add_market_def book_asks60_def market_trade_def reduced_def eval_defs)
  have kc: "keys_sorted book_crossed"
    by (simp add: keys_sorted_def book_crossed_eq)
  note ms = match_fill_book_crossed
  from fifo_within_level [OF k, of 100 SELL 7]
  have l: "level_at 100 (own_side SELL (insert_limit SELL 100 7 book_asks60))
           = level_at 100 (own_side SELL book_asks60) @ [allocate (nextOrderId book_asks60) SELL LIMIT 7 100]"
    by blast
  from fifo_within_level [OF k, of _ BUY 30 ?ts ?b'] am
  have p: "\<forall>j<length ?ts. \<forall>i<j. ?ts ! i
              = full_fill BUY (nextOrderId book_asks60) (priced (opposing BUY book_asks60) ! i)"
    by blast
  from l have l': "level_at 100 (asks (insert_limit SELL 100 7 book_asks60))
     = [allocate 1 SELL LIMIT 25 100, allocate 2 SELL LIMIT 15 100, allocate 5 SELL LIMIT 7 100]"
    by (simp add: own_side_def book_asks60_def)
  from p have "(1::nat) < length ?ts \<longrightarrow> (\<forall>i<1. ?ts ! i
              = full_fill BUY (nextOrderId book_asks60) (priced (opposing BUY book_asks60) ! i))"
    by (rule spec)
  then have "?ts ! 0 = full_fill BUY (nextOrderId book_asks60) (priced (opposing BUY book_asks60) ! 0)"
    by simp
  then have f: "?ts ! 0 = full_fill BUY 5 (100, allocate 1 SELL LIMIT 25 100)"
    by (simp add: book_asks60_def opposing_def)
  from fifo_within_level [OF kc, of _ _ _ _ _ ?B ?A 5 book_filled] ms
  have "?B = reduced (hd (flat (bids book_crossed))) 5"
    and "?A = reduced (hd (flat (asks book_crossed))) 5"
    and "flat (bids book_filled) = ?B # tl (flat (bids book_crossed))"
    and "flat (asks book_filled) = ?A # tl (flat (asks book_crossed))"
    by blast+
  then have fr: "?B = reduced (allocate 4 BUY LIMIT 10 101) 5"
      "?A = reduced (allocate 1 SELL LIMIT 5 99) 5"
      "flat (bids book_filled) = [?B, allocate 3 BUY LIMIT 5 50]"
      "flat (asks book_filled) = [?A, allocate 2 SELL LIMIT 5 200]"
    by (simp_all add: book_crossed_eq)
  from k l' am f kc ms fr show ?thesis by blast
qed

section \<open>The prices on the legs of a trade\<close>

lemma part_fill_legs:
  "ti_price (getBuy (part_fill side mid po e)) = fst po"
  "ti_price (getSell (part_fill side mid po e)) = fst po"
  "ti_qty (getBuy (part_fill side mid po e)) = e"
  "ti_qty (getSell (part_fill side mid po e)) = e"
  "ti_id (resting_leg side (part_fill side mid po e)) = order_id (snd po)"
  by (simp_all add: part_fill_def market_trade_def mkTrade_def resting_leg_def)

lemma add_market_trade_origin:
  assumes "add_market side qty b = Inr (ts, b')" and "t \<in> set ts"
  shows "\<exists>po e. po \<in> set (priced (opposing side b)) \<and> e \<le> remainingQty (snd po) \<and>
           t = part_fill side (nextOrderId b) po e"
proof -
  from add_market_shape [OF assms(1)] obtain filled todo where
    sp: "priced (opposing side b) = filled @ todo" and
    d: "ts = map (full_fill side (nextOrderId b)) filled \<or>
        (\<exists>po rest e. todo = po # rest \<and> e \<noteq> 0 \<and> e < remainingQty (snd po) \<and>
           ts = map (full_fill side (nextOrderId b)) filled @ [part_fill side (nextOrderId b) po e])"
    by blast
  from shape_positions(2) [OF sp d] have
    p: "\<forall>j<length ts. \<exists>e. ts ! j = part_fill side (nextOrderId b) (priced (opposing side b) ! j) e \<and>
                           e \<le> remainingQty (snd (priced (opposing side b) ! j))" .
  from shape_positions(1) [OF sp d] have l: "length ts \<le> length (priced (opposing side b))" .
  from assms(2) obtain j where j: "j < length ts" "t = ts ! j" by (auto simp: in_set_conv_nth)
  with p obtain e where
    e: "t = part_fill side (nextOrderId b) (priced (opposing side b) ! j) e"
       "e \<le> remainingQty (snd (priced (opposing side b) ! j))"
    by blast
  from j l have "priced (opposing side b) ! j \<in> set (priced (opposing side b))" by simp
  with e show ?thesis by blast
qed

lemma set_flat_erase_key: "set (flat (erase_key k m)) \<subseteq> set (flat m)"
  by (induction m) (auto simp: erase_key_def)

lemma level_prices_okD:
  "level_prices_ok m \<Longrightarrow> po \<in> set (priced m) \<Longrightarrow> order_price (snd po) = fst po"
  by (simp add: level_prices_ok_def list_all_iff)

text \<open>
  Every trade record of \<^verbatim>\<open>add_market\<close> carries one price on both legs: the key of the
  level of the resting order it fills, which is that order's limit price when the
  orders of the opposing side are queued at the level of their price.
\<close>

lemma add_market_leg_prices:
  assumes "add_market side qty b = Inr (ts, b')" and "t \<in> set ts"
  shows "ti_price (getBuy t) = ti_price (getSell t)"
    and "\<exists>po \<in> set (priced (opposing side b)).
           ti_id (resting_leg side t) = order_id (snd po) \<and> ti_price (getBuy t) = fst po \<and>
           (level_prices_ok (opposing side b) \<longrightarrow> ti_price (getBuy t) = order_price (snd po))"
proof -
  from add_market_trade_origin [OF assms] obtain po e where
    po: "po \<in> set (priced (opposing side b))" and t: "t = part_fill side (nextOrderId b) po e"
    by blast
  from t show "ti_price (getBuy t) = ti_price (getSell t)"
    by (simp add: part_fill_legs)
  have "ti_id (resting_leg side t) = order_id (snd po) \<and> ti_price (getBuy t) = fst po \<and>
        (level_prices_ok (opposing side b) \<longrightarrow> ti_price (getBuy t) = order_price (snd po))"
    using t po by (auto simp: part_fill_legs dest: level_prices_okD)
  with po show "\<exists>po \<in> set (priced (opposing side b)).
         ti_id (resting_leg side t) = order_id (snd po) \<and> ti_price (getBuy t) = fst po \<and>
         (level_prices_ok (opposing side b) \<longrightarrow> ti_price (getBuy t) = order_price (snd po))"
    by blast
qed


section \<open>Quantities are conserved\<close>

lemma unat_reduce: "e \<le> r \<Longrightarrow> unat (r - e) + unat e = unat r" for e r :: Qty
  by (simp add: unat_sub word_le_nat_alt)

lemma match_fill_conserves:
  assumes "match_fill b = Inr (Some (bid, ask, exec, b1))"
  shows "exec \<le> remainingQty (hd (flat (bids b)))"
    and "exec \<le> remainingQty (hd (flat (asks b)))"
    and "rem_of i (bids b1) + (if order_id bid = i then unat exec else 0) = rem_of i (bids b)"
    and "rem_of i (asks b1) + (if order_id ask = i then unat exec else 0) = rem_of i (asks b)"
    and "init_of i (bids b1) = init_of i (bids b)"
    and "init_of i (asks b1) = init_of i (asks b)"
    and "qty_ok b \<Longrightarrow> qty_ok b1"
proof -
  from match_fill_SomeD [OF assms] obtain bestAsk ask0 askTl asksRest bestBid bid0 bidTl bidsRest where
    a: "asks b = (bestAsk, ask0 # askTl) # asksRest" and
    bd: "bids b = (bestBid, bid0 # bidTl) # bidsRest" and
    e: "exec = min (remainingQty bid0) (remainingQty ask0)" and
    bid: "bid = bid0\<lparr>remainingQty := remainingQty bid0 - exec\<rparr>" and
    ask: "ask = ask0\<lparr>remainingQty := remainingQty ask0 - exec\<rparr>" and
    b1: "b1 = b\<lparr>asks := (bestAsk, ask # askTl) # asksRest, bids := (bestBid, bid # bidTl) # bidsRest\<rparr>"
    by blast
  from e have le: "exec \<le> remainingQty bid0" "exec \<le> remainingQty ask0" by simp_all
  note u = unat_reduce [OF le(1)] unat_reduce [OF le(2)]
  from le show "exec \<le> remainingQty (hd (flat (bids b)))" "exec \<le> remainingQty (hd (flat (asks b)))"
    by (simp_all add: a bd)
  show "rem_of i (bids b1) + (if order_id bid = i then unat exec else 0) = rem_of i (bids b)"
    using u(1) by (simp add: rem_of_def bd b1 bid)
  show "rem_of i (asks b1) + (if order_id ask = i then unat exec else 0) = rem_of i (asks b)"
    using u(2) by (simp add: rem_of_def a b1 ask)
  show "init_of i (bids b1) = init_of i (bids b)"
    by (simp add: init_of_def bd b1 bid)
  show "init_of i (asks b1) = init_of i (asks b)"
    by (simp add: init_of_def a b1 ask)
  show "qty_ok b1" if ok: "qty_ok b"
  proof -
    have "remainingQty bid0 - exec \<le> remainingQty bid0" "remainingQty ask0 - exec \<le> remainingQty ask0"
      using le by (simp_all add: word_sub_le)
    with ok show ?thesis
      by (auto simp: qty_ok_def a bd b1 bid ask)
  qed
qed

lemma set_flat_pop_front_best: "set (flat (pop_front_best m)) \<subseteq> set (flat m)"
proof (cases m)
  case Nil
  then show ?thesis by (simp add: pop_front_best_def)
next
  case (Cons pl rest)
  obtain p l where pl: "pl = (p, l)" by (cases pl)
  have "set (tl l) \<subseteq> set l" by (cases l) auto
  with Cons pl show ?thesis by (auto simp: pop_front_best_def)
qed

lemma set_flat_erase_empty_best: "set (flat (erase_empty_best m)) \<subseteq> set (flat m)"
proof (cases m)
  case Nil
  then show ?thesis by (simp add: erase_empty_best_def)
next
  case (Cons pl rest)
  obtain p l where pl: "pl = (p, l)" by (cases pl)
  show ?thesis
  proof (cases "l = []")
    case True
    with Cons pl set_flat_erase_key [of p m] show ?thesis
      by (simp add: erase_empty_best_def)
  next
    case False
    with Cons pl show ?thesis by (simp add: erase_empty_best_def)
  qed
qed

lemma match_erase_qty_ok:
  assumes "match_erase bid ask b1 = Inr b2" and "qty_ok b1"
  shows "qty_ok b2"
proof -
  from assms(1) have
    "set (flat (asks b2)) \<subseteq> set (flat (asks b1))" "set (flat (bids b2)) \<subseteq> set (flat (bids b1))"
    using set_flat_pop_front_best [of "asks b1"] set_flat_erase_empty_best [of "asks b1"]
      set_flat_erase_empty_best [of "pop_front_best (asks b1)"] set_flat_erase_empty_best [of "bids b1"]
    by (auto simp: match_erase_def Let_def split: if_splits)
  with assms(2) show ?thesis
    by (auto simp: qty_ok_def list_all_iff)
qed

lemma qty_ok_rem_le_init:
  "qty_ok b \<Longrightarrow> rem_of i (bids b) \<le> init_of i (bids b) \<and> rem_of i (asks b) \<le> init_of i (asks b)"
proof -
  have "list_all (\<lambda>ord. remainingQty ord \<le> initialQty ord) xs \<Longrightarrow>
        sum_list (map (\<lambda>ord. if order_id ord = i then unat (remainingQty ord) else 0) xs)
        \<le> sum_list (map (\<lambda>ord. if order_id ord = i then unat (initialQty ord) else 0) xs)" for xs
    by (induction xs) (auto simp: word_le_nat_alt)
  then show "qty_ok b \<Longrightarrow> ?thesis"
    by (auto simp: qty_ok_def rem_of_def init_of_def)
qed


lemma consume_level_accounting:
  "consume_level side mid price qty lvl idx = Inr (ts, q, lvl', idx') \<Longrightarrow>
   unat q + traded_qty ts = unat qty"
proof (induction lvl arbitrary: qty idx ts q lvl' idx')
  case Nil
  then show ?case by (simp add: traded_qty_def)
next
  case (Cons r rest)
  show ?case
  proof (cases "qty = 0")
    case True
    with Cons.prems show ?thesis by (simp add: traded_qty_def)
  next
    case False
    define e where "e = min qty (remainingQty r)"
    have le: "e \<le> qty" by (simp add: e_def)
    have f: "fill e r = Inr (r\<lparr>remainingQty := remainingQty r - e\<rparr>)"
      unfolding e_def by (rule fill_min_right)
    obtain ts1 q1 l1 i1 where c1:
      "consume_level side mid price (qty - e) rest (idx(order_id r := None)) = Inr (ts1, q1, l1, i1)"
      using consume_level_total by blast
    obtain ts2 q2 l2 i2 where c2:
      "consume_level side mid price (qty - e) rest idx = Inr (ts2, q2, l2, i2)"
      using consume_level_total by blast
    have tq: "traded_qty (market_trade side mid (order_id r) price e # xs) = unat e + traded_qty xs" for xs
      by (simp add: traded_qty_def market_trade_def mkTrade_def)
    from Cons.IH [OF c1] Cons.IH [OF c2] unat_reduce [OF le]
    have ih: "unat q1 + traded_qty ts1 + unat e = unat qty" "unat q2 + traded_qty ts2 + unat e = unat qty"
      by simp_all
    from Cons.prems False f c1 c2 have
      "(q = q1 \<and> ts = market_trade side mid (order_id r) price e # ts1) \<or>
       (q = q2 \<and> ts = market_trade side mid (order_id r) price e # ts2)"
      by (auto simp: Let_def e_def [symmetric] split: if_splits)
    with ih tq show ?thesis by auto
  qed
qed

lemma traded_qty_append: "traded_qty (xs @ ys) = traded_qty xs + traded_qty ys"
  by (simp add: traded_qty_def)

lemma consume_accounting:
  "consume side mid qty opp idx = Inr (ts, q, opp', idx') \<Longrightarrow> unat q + traded_qty ts = unat qty"
proof (induction side mid qty opp idx arbitrary: ts q opp' idx' rule: consume.induct)
  case (1 side marketId qty idx)
  then show ?case by (simp add: traded_qty_def)
next
  case (2 side marketId qty price level rest idx)
  show ?case
  proof (cases "qty = 0")
    case True
    with "2.prems" show ?thesis by (simp add: traded_qty_def)
  next
    case False
    obtain ts1 q1 lvl1 idx1 where
      c: "consume_level side marketId price qty level idx = Inr (ts1, q1, lvl1, idx1)"
      using consume_level_total by blast
    obtain ts2 q2 opp2 idx2 where
      r: "consume side marketId q1 (if lvl1 = [] then rest else (price, lvl1) # rest) idx1
            = Inr (ts2, q2, opp2, idx2)"
      using consume_total by blast
    from "2.prems" False c r have res: "ts = ts1 @ ts2" "q = q2" by simp_all
    from "2.IH" [OF False c refl refl refl r] have "unat q2 + traded_qty ts2 = unat q1" .
    with consume_level_accounting [OF c] res show ?thesis
      by (simp add: traded_qty_append)
  qed
qed

lemma add_market_traded_le:
  assumes "add_market side qty b = Inr (ts, b')"
  shows "traded_qty ts \<le> unat qty"
proof (cases "qty = 0")
  case True
  with assms show ?thesis by (simp add: add_market_def traded_qty_def)
next
  case False
  show ?thesis
  proof (cases side)
    case BUY
    obtain ts0 q opp idx where
      c: "consume BUY (nextOrderId b) qty (asks b) (orderIdToIterator b) = Inr (ts0, q, opp, idx)"
      using consume_total by blast
    from assms False BUY c have "ts = ts0" by (auto simp: add_market_def nextId_def)
    with consume_accounting [OF c] show ?thesis by simp
  next
    case SELL
    obtain ts0 q opp idx where
      c: "consume SELL (nextOrderId b) qty (bids b) (orderIdToIterator b) = Inr (ts0, q, opp, idx)"
      using consume_total by blast
    from assms False SELL c have "ts = ts0" by (auto simp: add_market_def nextId_def)
    with consume_accounting [OF c] show ?thesis by simp
  qed
qed


lemma rem_of_priced:
  "rem_of i m = sum_list (map (\<lambda>po. if order_id (snd po) = i then unat (remainingQty (snd po)) else 0) (priced m))"
  by (simp add: rem_of_def map_snd_priced [symmetric] comp_def)

lemma init_of_priced:
  "init_of i m = sum_list (map (\<lambda>po. if order_id (snd po) = i then unat (initialQty (snd po)) else 0) (priced m))"
  by (simp add: init_of_def map_snd_priced [symmetric] comp_def)

lemma qtys_append:
  "resting_qty side i (xs @ ys) = resting_qty side i xs + resting_qty side i ys"
  "market_qty side i (xs @ ys) = market_qty side i xs + market_qty side i ys"
  by (simp_all add: resting_qty_def market_qty_def bought_def sold_def)

lemma qtys_part_fill:
  "resting_qty side i [part_fill side mid po e] = (if order_id (snd po) = i then unat e else 0)"
  "market_qty side i [part_fill side mid po e] = (if mid = i then unat e else 0)"
  "traded_qty [part_fill side mid po e] = unat e"
  by (cases side; simp add: resting_qty_def market_qty_def bought_def sold_def traded_qty_def
      part_fill_def market_trade_def mkTrade_def)+

lemma qtys_full_fills:
  "resting_qty side i (map (full_fill side mid) filled)
     = sum_list (map (\<lambda>po. if order_id (snd po) = i then unat (remainingQty (snd po)) else 0) filled)"
  "market_qty side i (map (full_fill side mid) filled)
     = (if mid = i then traded_qty (map (full_fill side mid) filled) else 0)"
proof (induction filled)
  case Nil
  {
    case 1
    show ?case by (simp add: resting_qty_def bought_def sold_def)
  next
    case 2
    show ?case by (simp add: market_qty_def bought_def sold_def traded_qty_def)
  }
next
  case (Cons po filled)
  have c: "map (full_fill side mid) (po # filled)
           = [part_fill side mid po (remainingQty (snd po))] @ map (full_fill side mid) filled"
    by (simp add: full_fill_part_fill)
  {
    case 1
    show ?case unfolding c qtys_append using Cons(1) by (simp add: qtys_part_fill)
  next
    case 2
    show ?case unfolding c qtys_append traded_qty_append using Cons(2) by (simp add: qtys_part_fill)
  }
qed

lemma equal_legs_part_fill: "ti_qty (getBuy (part_fill side mid po e)) = ti_qty (getSell (part_fill side mid po e))"
  by (simp add: part_fill_legs)

lemma qty_ok_sides:
  "qty_ok b \<longleftrightarrow> list_all (\<lambda>ord. remainingQty ord \<le> initialQty ord) (flat (opposing side b)) \<and>
                 list_all (\<lambda>ord. remainingQty ord \<le> initialQty ord) (flat (own_side side b))"
  by (cases side) (auto simp: qty_ok_def opposing_def own_side_def)

lemma add_market_conserves:
  assumes "add_market side qty b = Inr (ts, b')"
  shows "rem_of i (opposing side b') + resting_qty side i ts = rem_of i (opposing side b)"
    and "market_qty side i ts = (if nextOrderId b = i then traded_qty ts else 0)"
    and "list_all (\<lambda>t. ti_qty (getBuy t) = ti_qty (getSell t)) ts"
    and "init_of i (opposing side b') \<le> init_of i (opposing side b)"
    and "qty_ok b \<Longrightarrow> qty_ok b'"
proof -
  let ?mid = "nextOrderId b"
  from add_market_shape [OF assms] obtain filled todo where
    sp: "priced (opposing side b) = filled @ todo" and
    own: "own_side side b' = own_side side b" and
    d: "(ts = map (full_fill side ?mid) filled \<and> priced (opposing side b') = todo) \<or>
        (\<exists>po rest e. todo = po # rest \<and> e \<noteq> 0 \<and> e < remainingQty (snd po) \<and>
           ts = map (full_fill side ?mid) filled @ [part_fill side ?mid po e] \<and>
           priced (opposing side b') = (fst po, reduced (snd po) e) # rest)"
    by blast
  have eq: "list_all (\<lambda>t. ti_qty (getBuy t) = ti_qty (getSell t)) (map (full_fill side ?mid) filled)"
    by (simp add: list_all_iff full_fill_part_fill equal_legs_part_fill)
  from d show "rem_of i (opposing side b') + resting_qty side i ts = rem_of i (opposing side b)"
  proof
    assume "ts = map (full_fill side ?mid) filled \<and> priced (opposing side b') = todo"
    then show ?thesis by (simp add: rem_of_priced sp qtys_full_fills)
  next
    assume "\<exists>po rest e. todo = po # rest \<and> e \<noteq> 0 \<and> e < remainingQty (snd po) \<and>
           ts = map (full_fill side ?mid) filled @ [part_fill side ?mid po e] \<and>
           priced (opposing side b') = (fst po, reduced (snd po) e) # rest"
    then obtain po rest e where
      x: "todo = po # rest" "e < remainingQty (snd po)"
         "ts = map (full_fill side ?mid) filled @ [part_fill side ?mid po e]"
         "priced (opposing side b') = (fst po, reduced (snd po) e) # rest"
      by blast
    from x(2) have "e \<le> remainingQty (snd po)" by simp
    from unat_reduce [OF this] x show ?thesis
      by (simp add: rem_of_priced sp qtys_full_fills qtys_append qtys_part_fill reduced_def)
  qed
  from d show "market_qty side i ts = (if ?mid = i then traded_qty ts else 0)"
    by (auto simp: qtys_full_fills qtys_append qtys_part_fill traded_qty_append)
  from d eq show "list_all (\<lambda>t. ti_qty (getBuy t) = ti_qty (getSell t)) ts"
    by (auto simp: equal_legs_part_fill)
  from d show "init_of i (opposing side b') \<le> init_of i (opposing side b)"
    by (auto simp: init_of_priced sp reduced_def)
  show "qty_ok b'" if ok: "qty_ok b"
  proof -
    from ok have o1: "list_all (\<lambda>ord. remainingQty ord \<le> initialQty ord) (map snd (filled @ todo))"
      and o2: "list_all (\<lambda>ord. remainingQty ord \<le> initialQty ord) (flat (own_side side b'))"
      by (simp_all add: qty_ok_sides [of b side] map_snd_priced [symmetric] sp [symmetric] own)
    have "list_all (\<lambda>ord. remainingQty ord \<le> initialQty ord) (map snd (priced (opposing side b')))"
      using d
    proof
      assume "ts = map (full_fill side ?mid) filled \<and> priced (opposing side b') = todo"
      with o1 show ?thesis by simp
    next
      assume "\<exists>po rest e. todo = po # rest \<and> e \<noteq> 0 \<and> e < remainingQty (snd po) \<and>
           ts = map (full_fill side ?mid) filled @ [part_fill side ?mid po e] \<and>
           priced (opposing side b') = (fst po, reduced (snd po) e) # rest"
      then obtain po rest e where
        x: "todo = po # rest" "e < remainingQty (snd po)"
           "priced (opposing side b') = (fst po, reduced (snd po) e) # rest"
        by blast
      from x(2) have "remainingQty (snd po) - e \<le> remainingQty (snd po)"
        by (simp add: word_sub_le)
      with o1 x show ?thesis by (auto simp: reduced_def)
    qed
    with o2 show ?thesis
      by (simp add: qty_ok_sides [of b' side] map_snd_priced)
  qed
qed


lemma list_all_modify_at:
  "list_all P (flat m) \<Longrightarrow> (\<And>l. list_all P l \<Longrightarrow> list_all P (f l)) \<Longrightarrow>
   list_all P (flat (modify_at lt k f m))"
  by (induction lt k f m rule: modify_at.induct) auto

lemma list_all_level_at: "list_all P (flat m) \<Longrightarrow> list_all P (level_at k m)"
  by (induction m) auto

lemma list_all_erase_node: "erase_node it lvl = Inr lvl' \<Longrightarrow> list_all P lvl \<Longrightarrow> list_all P lvl'"
  by (induction lvl arbitrary: lvl') (auto split: if_splits sum.splits)

lemma list_all_replace_level:
  "list_all P (flat m) \<Longrightarrow> list_all P lvl \<Longrightarrow> list_all P (flat (modify_at lt k (\<lambda>_. lvl) m))"
  by (induction m) auto

lemma qty_ok_insert_limit:
  assumes "qty_ok b"
  shows "qty_ok (insert_limit side price qty b)"
proof -
  let ?P = "\<lambda>ord. remainingQty ord \<le> initialQty ord"
  let ?o = "\<lparr>order_id = nextOrderId b, order_type = LIMIT, order_side = side, order_price = price,
             initialQty = qty, remainingQty = qty\<rparr>"
  from assms have a: "list_all ?P (flat (asks b))" and bd: "list_all ?P (flat (bids b))"
    by (simp_all add: qty_ok_def)
  have f: "\<And>l. list_all ?P l \<Longrightarrow> list_all ?P (l @ [?o])" by simp
  from list_all_modify_at [OF a f] list_all_modify_at [OF bd f] a bd show ?thesis
    by (cases side) (simp_all add: insert_limit_def nextId_def Let_def qty_ok_def)
qed

lemma qty_ok_cancel:
  assumes "cancel oid b = Inr b'" and "qty_ok b"
  shows "qty_ok b'"
proof -
  let ?P = "\<lambda>ord. remainingQty ord \<le> initialQty ord"
  from assms(2) have a: "list_all ?P (flat (asks b))" and bd: "list_all ?P (flat (bids b))"
    by (simp_all add: qty_ok_def)
  from assms(1) obtain h where h: "orderIdToIterator b oid = Some h"
    by (auto simp: cancel_def split: option.splits)
  show ?thesis
  proof (cases "h_side h")
    case BUY
    with assms(1) h obtain lvl where
      e: "erase_node (h_it h) (level_at (h_price h) (bids b)) = Inr lvl" and
      b': "b' = b\<lparr>bids := modify_at (>) (h_price h) (\<lambda>_. lvl) (bids b),
                   orderIdToIterator := (orderIdToIterator b)(oid := None)\<rparr>"
      by (auto simp: cancel_def split: sum.splits)
    from list_all_erase_node [OF e list_all_level_at [OF bd]] have "list_all ?P lvl" .
    from list_all_replace_level [OF bd this] a show ?thesis
      by (simp add: b' qty_ok_def)
  next
    case SELL
    with assms(1) h obtain lvl where
      e: "erase_node (h_it h) (level_at (h_price h) (asks b)) = Inr lvl" and
      b': "b' = b\<lparr>asks := modify_at (<) (h_price h) (\<lambda>_. lvl) (asks b),
                   orderIdToIterator := (orderIdToIterator b)(oid := None)\<rparr>"
      by (auto simp: cancel_def split: sum.splits)
    from list_all_erase_node [OF e list_all_level_at [OF a]] have "list_all ?P lvl" .
    from list_all_replace_level [OF a this] bd show ?thesis
      by (simp add: b' qty_ok_def)
  qed
qed

lemma flat_modify_at_same: "flat (modify_at lt k (\<lambda>l. l) m) = flat m"
  by (induction lt k "\<lambda>l::Level. l" m rule: modify_at.induct) auto

lemma add_limit_Inr:
  assumes "add_limit side price qty b = Inr (ts, b')"
  shows "ts = [] \<and> flat (bids b') = flat (bids b) \<and> flat (asks b') = flat (asks b)"
proof -
  let ?b1 = "b\<lparr>nextOrderId := nextOrderId b + 1\<rparr>"
  let ?b2 = "if side = BUY then ?b1\<lparr>bids := modify_at (>) price (\<lambda>l. l) (bids ?b1)\<rparr>
             else ?b1\<lparr>asks := modify_at (<) price (\<lambda>l. l) (asks ?b1)\<rparr>"
  let ?b3 = "?b2\<lparr>orderIdToIterator :=
               index_insert (nextOrderId b) \<lparr>h_side = side, h_price = price, h_it = nextOrderId b\<rparr>
                 (orderIdToIterator ?b2)\<rparr>"
  from assms have m: "matchOrders ?b3 = Inr (ts, b')"
    by (simp add: add_limit_def nextId_def Let_def)
  have f: "flat (bids ?b3) = flat (bids b)" "flat (asks ?b3) = flat (asks b)"
    by (simp_all add: flat_modify_at_same)
  from matchOrders_Inr [OF m] f show ?thesis by simp
qed

text \<open>
  Claim C3. In every trade record of \<^verbatim>\<open>add_market\<close> the buy leg and the sell leg carry
  the same quantity, the executed amount. For every id \<open>i\<close>, the quantities of the legs
  that carry \<open>i\<close> add up to the decrease of the remaining quantity of the orders with
  that id, so they never exceed what these orders had left nor their initial quantity;
  the legs of a market order add up to at most its quantity. The crossing loop of
  \<^verbatim>\<open>OrderBookOptimized.cpp\<close> takes the one quantity \<^verbatim>\<open>exec\<close> from the front bid and from
  the front ask, never more than either has left. When \<^verbatim>\<open>matchOrders\<close> or
  \<^verbatim>\<open>add_limit\<close> returns, it returns no trade record and has changed no order, so the
  trade records the code returns are those of \<^verbatim>\<open>add_market\<close>. No operation, and no
  part of the crossing loop, leaves an order with more remaining than initial quantity.
\<close>

theorem quantity_conservation:
  assumes "qty_ok b"
  shows "(add_market side qty b = Inr (ts, b') \<longrightarrow>
            list_all (\<lambda>t. ti_qty (getBuy t) = ti_qty (getSell t)) ts \<and>
            rem_of i (opposing side b') + resting_qty side i ts = rem_of i (opposing side b) \<and>
            resting_qty side i ts \<le> init_of i (opposing side b) \<and>
            market_qty side i ts = (if nextOrderId b = i then traded_qty ts else 0) \<and>
            traded_qty ts \<le> unat qty \<and>
            qty_ok b') \<and>
         qty_ok (insert_limit side price qty b) \<and>
         (cancel oid b = Inr b' \<longrightarrow> qty_ok b') \<and>
         (match_fill b = Inr (Some (bid, ask, exec, b1)) \<longrightarrow>
            exec \<le> remainingQty (hd (flat (bids b))) \<and>
            exec \<le> remainingQty (hd (flat (asks b))) \<and>
            rem_of i (bids b1) + (if order_id bid = i then unat exec else 0) = rem_of i (bids b) \<and>
            rem_of i (asks b1) + (if order_id ask = i then unat exec else 0) = rem_of i (asks b) \<and>
            qty_ok b1 \<and>
            (match_erase bid ask b1 = Inr b2 \<longrightarrow> qty_ok b2)) \<and>
         (matchOrders b = Inr (ts, b') \<longrightarrow> ts = [] \<and> b' = b) \<and>
         (add_limit side price qty b = Inr (ts, b') \<longrightarrow>
            ts = [] \<and> flat (bids b') = flat (bids b) \<and> flat (asks b') = flat (asks b) \<and> qty_ok b')"
proof (intro conjI impI)
  assume a: "add_market side qty b = Inr (ts, b')"
  note c = add_market_conserves [OF a]
  from c(3) show "list_all (\<lambda>t. ti_qty (getBuy t) = ti_qty (getSell t)) ts" .
  from c(1) show "rem_of i (opposing side b') + resting_qty side i ts = rem_of i (opposing side b)" .
  from qty_ok_rem_le_init [OF assms, of i]
  have "rem_of i (opposing side b) \<le> init_of i (opposing side b)"
    by (cases side) (simp_all add: opposing_def)
  with c(1) [of i] show "resting_qty side i ts \<le> init_of i (opposing side b)" by linarith
  from c(2) show "market_qty side i ts = (if nextOrderId b = i then traded_qty ts else 0)" .
  from add_market_traded_le [OF a] show "traded_qty ts \<le> unat qty" .
  from c(5) [OF assms] show "qty_ok b'" .
next
  show "qty_ok (insert_limit side price qty b)" by (rule qty_ok_insert_limit [OF assms])
next
  assume "cancel oid b = Inr b'"
  from qty_ok_cancel [OF this assms] show "qty_ok b'" .
next
  assume m: "match_fill b = Inr (Some (bid, ask, exec, b1))"
  note c = match_fill_conserves [OF m]
  from c(1) show "exec \<le> remainingQty (hd (flat (bids b)))" .
  from c(2) show "exec \<le> remainingQty (hd (flat (asks b)))" .
  from c(3) show "rem_of i (bids b1) + (if order_id bid = i then unat exec else 0) = rem_of i (bids b)" .
  from c(4) show "rem_of i (asks b1) + (if order_id ask = i then unat exec else 0) = rem_of i (asks b)" .
  from c(7) [OF assms] show q: "qty_ok b1" .
  assume "match_erase bid ask b1 = Inr b2"
  from match_erase_qty_ok [OF this q] show "qty_ok b2" .
next
  assume "matchOrders b = Inr (ts, b')"
  from matchOrders_Inr [OF this] show "ts = []" and "b' = b" by simp_all
next
  assume al: "add_limit side price qty b = Inr (ts, b')"
  from add_limit_Inr [OF al]
  show "ts = []" and f: "flat (bids b') = flat (bids b)" "flat (asks b') = flat (asks b)"
    by simp_all
  from f assms show "qty_ok b'" by (simp add: qty_ok_def)
qed

theorem quantity_conservation_witness:
  "qty_ok book_asks60 \<and>
   add_market BUY 30 book_asks60
     = Inr ([mkTrade 5 100 25 1 100 25, mkTrade 5 100 5 2 100 5],
            book_asks60\<lparr>asks := [(100, [reduced (allocate 2 SELL LIMIT 15 100) 5]),
                                  (101, [allocate 3 SELL LIMIT 20 101])],
                         orderIdToIterator := (orderIdToIterator book_asks60)(1 := None),
                         nextOrderId := 6\<rparr>) \<and>
   resting_qty BUY 2 [mkTrade 5 100 25 1 100 25, mkTrade 5 100 5 2 100 5] = 5 \<and>
   resting_qty BUY 2 [mkTrade 5 100 25 1 100 25, mkTrade 5 100 5 2 100 5]
     \<le> init_of 2 (opposing BUY book_asks60) \<and>
   market_qty BUY 5 [mkTrade 5 100 25 1 100 25, mkTrade 5 100 5 2 100 5] = 30 \<and>
   traded_qty [mkTrade 5 100 25 1 100 25, mkTrade 5 100 5 2 100 5] \<le> unat (30 :: Qty) \<and>
   qty_ok (book_asks60\<lparr>asks := [(100, [reduced (allocate 2 SELL LIMIT 15 100) 5]),
                                  (101, [allocate 3 SELL LIMIT 20 101])],
                         orderIdToIterator := (orderIdToIterator book_asks60)(1 := None),
                         nextOrderId := 6\<rparr>) \<and>
   qty_ok book_before \<and>
   qty_ok (insert_limit BUY 101 10 book_before) \<and>
   cancel 1 book_before
     = Inr (book_before\<lparr>asks := [(99, []), (200, [allocate 2 SELL LIMIT 5 200])],
                 orderIdToIterator := (orderIdToIterator book_before)(1 := None)\<rparr>) \<and>
   qty_ok (book_before\<lparr>asks := [(99, []), (200, [allocate 2 SELL LIMIT 5 200])],
                 orderIdToIterator := (orderIdToIterator book_before)(1 := None)\<rparr>) \<and>
   qty_ok book_crossed \<and>
   match_fill book_crossed
     = Inr (Some ((allocate 4 BUY LIMIT 10 101)\<lparr>remainingQty := 5\<rparr>,
                  (allocate 1 SELL LIMIT 5 99)\<lparr>remainingQty := 0\<rparr>, 5, book_filled)) \<and>
   rem_of 4 (bids book_filled) + unat (5 :: Qty) = rem_of 4 (bids book_crossed) \<and>
   rem_of 1 (asks book_filled) + unat (5 :: Qty) = rem_of 1 (asks book_crossed) \<and>
   qty_ok book_filled \<and>
   match_erase ((allocate 4 BUY LIMIT 10 101)\<lparr>remainingQty := 5\<rparr>)
     ((allocate 1 SELL LIMIT 5 99)\<lparr>remainingQty := 0\<rparr>) book_filled = Inr book_matched \<and>
   qty_ok book_matched \<and>
   matchOrders book_quiet = Inr ([], book_quiet) \<and>
   add_limit BUY 95 5 book_before
     = Inr ([], book_before\<lparr>bids := [(95, []), (50, [allocate 3 BUY LIMIT 5 50])],
                 orderIdToIterator :=
                   (orderIdToIterator book_before)(4 \<mapsto> \<lparr>h_side = BUY, h_price = 95, h_it = 4\<rparr>),
                 nextOrderId := 5\<rparr>) \<and>
   qty_ok (book_before\<lparr>bids := [(95, []), (50, [allocate 3 BUY LIMIT 5 50])],
                 orderIdToIterator :=
                   (orderIdToIterator book_before)(4 \<mapsto> \<lparr>h_side = BUY, h_price = 95, h_it = 4\<rparr>),
                 nextOrderId := 5\<rparr>)"
proof -
  let ?ts = "[mkTrade 5 100 25 1 100 25, mkTrade 5 100 5 2 100 5]"
  let ?bm = "book_asks60\<lparr>asks := [(100, [reduced (allocate 2 SELL LIMIT 15 100) 5]),
                                  (101, [allocate 3 SELL LIMIT 20 101])],
                         orderIdToIterator := (orderIdToIterator book_asks60)(1 := None),
                         nextOrderId := 6\<rparr>"
  let ?bc = "book_before\<lparr>asks := [(99, []), (200, [allocate 2 SELL LIMIT 5 200])],
                 orderIdToIterator := (orderIdToIterator book_before)(1 := None)\<rparr>"
  let ?bl = "book_before\<lparr>bids := [(95, []), (50, [allocate 3 BUY LIMIT 5 50])],
                 orderIdToIterator :=
                   (orderIdToIterator book_before)(4 \<mapsto> \<lparr>h_side = BUY, h_price = 95, h_it = 4\<rparr>),
                 nextOrderId := 5\<rparr>"
  let ?B = "(allocate 4 BUY LIMIT 10 101)\<lparr>remainingQty := 5\<rparr>"
  let ?A = "(allocate 1 SELL LIMIT 5 99)\<lparr>remainingQty := 0\<rparr>"
  have qc: "qty_ok book_crossed"
    by (simp add: qty_ok_def book_crossed_eq allocate_def)
  have qa: "qty_ok book_asks60"
    by (simp add: qty_ok_def book_asks60_def allocate_def)
  have qb: "qty_ok book_before"
    by (simp add: qty_ok_def book_before_def allocate_def)
  have qq: "qty_ok book_quiet"
    by (simp add: qty_ok_def book_quiet_def allocate_def)
  have am: "add_market BUY 30 book_asks60 = Inr (?ts, ?bm)"
    by (simp add: add_market_def book_asks60_def market_trade_def reduced_def eval_defs)
  have c: "cancel 1 book_before = Inr ?bc"
    by (simp add: cancel_def book_before_def eval_defs)
  have al: "add_limit BUY 95 5 book_before = Inr ([], ?bl)"
    by (simp add: add_limit_def book_before_def eval_defs)
  have mq: "matchOrders book_quiet = Inr ([], book_quiet)"
    by (simp add: book_quiet_def eval_defs)
  note mf = match_fill_book_crossed
  note me = match_erase_book_filled
  from quantity_conservation [OF qa, where side = BUY and qty = 30 and ts = ?ts and b' = ?bm and i = 2] am
  have 1: "resting_qty BUY 2 ?ts \<le> init_of 2 (opposing BUY book_asks60)"
    "traded_qty ?ts \<le> unat (30 :: Qty)" "qty_ok ?bm"
    by blast+
  have 2: "resting_qty BUY 2 ?ts = 5" "market_qty BUY 5 ?ts = 30"
    by (simp_all add: resting_qty_def market_qty_def bought_def sold_def mkTrade_def)
  from quantity_conservation [OF qb, where side = BUY and qty = 10 and price = 101 and oid = 1 and b' = ?bc] c
  have 3: "qty_ok (insert_limit BUY 101 10 book_before)" "qty_ok ?bc"
    by blast+
  from quantity_conservation [OF qc, where bid = ?B and ask = ?A and exec = 5 and ?b1.0 = book_filled
      and ?b2.0 = book_matched and i = 4] mf me
  have 4: "rem_of 4 (bids book_filled) + (if order_id ?B = 4 then unat (5 :: Qty) else 0)
             = rem_of 4 (bids book_crossed)"
    "qty_ok book_filled" "qty_ok book_matched"
    by blast+
  from quantity_conservation [OF qc, where bid = ?B and ask = ?A and exec = 5 and ?b1.0 = book_filled
      and i = 1] mf
  have 5: "rem_of 1 (asks book_filled) + (if order_id ?A = 1 then unat (5 :: Qty) else 0)
             = rem_of 1 (asks book_crossed)"
    by blast
  from 4(1) have r4: "rem_of 4 (bids book_filled) + unat (5 :: Qty) = rem_of 4 (bids book_crossed)"
    by (simp add: allocate_def)
  from 5 have r5: "rem_of 1 (asks book_filled) + unat (5 :: Qty) = rem_of 1 (asks book_crossed)"
    by (simp add: allocate_def)
  from quantity_conservation [OF qb, where side = BUY and qty = 5 and price = 95 and ts = "[]" and b' = ?bl] al
  have 6: "qty_ok ?bl" by blast
  from qa am 2 1 qb 3 c qc mf r4 r5 4(2,3) me mq al 6 show ?thesis by blast
qed

end
